theory Spec2Isabelle
  imports Main "HOL-Library.Word"
begin

unbundle bit_operations_syntax

section \<open>The rope of rope.h\<close>

text \<open>
  A shallow embedding of the single-header rope library \<^verbatim>\<open>rope.h\<close>.

  Conventions of the model.
  \<^item> A C buffer passed as pointer and length (\<^verbatim>\<open>str, len\<close>) is a list of bytes; the
    length is the length of the list, \<^verbatim>\<open>str + k, len - k\<close> is \<open>drop k\<close>, and a
    \<^verbatim>\<open>NULL\<close> buffer of length 0 is the empty list.
  \<^item> A node pointer is a value of the datatype \<open>rope_node\<close>, \<open>Null\<close> being the
    \<^verbatim>\<open>NULL\<close> pointer. Every node has one owner, so no store is needed.
  \<^item> A leaf's \<^verbatim>\<open>leaf.data\<close> together with \<^verbatim>\<open>leaf.byte_len\<close> is the list
    \<open>leaf_data\<close>; the allocation size \<^verbatim>\<open>leaf.capacity\<close>, the node pool and
    \<^verbatim>\<open>free\<close> have no counterpart.
  \<^item> A rope handle \<^verbatim>\<open>rope_t *\<close> is a \<open>rope option\<close>, \<open>None\<close> being \<^verbatim>\<open>NULL\<close>.
  \<^item> \<^verbatim>\<open>size_t\<close> values are natural numbers. Stored sizes are sizes of allocated
    memory and do not wrap; the one sum of two caller-supplied values that a claim
    depends on, in \<^verbatim>\<open>rope_delete_bytes\<close>, is reduced modulo \<open>2 ^ 64\<close>.
  \<^item> Where the source dereferences a pointer without a check (\<^verbatim>\<open>left->is_leaf\<close> in
    \<^verbatim>\<open>node_new_branch\<close>, \<^verbatim>\<open>node->is_leaf\<close> in \<^verbatim>\<open>node_insert_bytes\<close>,
    \<^verbatim>\<open>root->color = RB_BLACK\<close>), the model has no equation for \<open>Null\<close>.
  \<^item> The traversal of \<^verbatim>\<open>rope_to_string\<close> keeps its pending branches in an array of
    64 entries; pushing a 65th is an error value of the model. Its output buffer of
    \<^verbatim>\<open>byte_len + 1\<close> bytes is a list that grows as needed: the leaves of a rope that
    satisfies the invariant \<open>rope_ok\<close> below hold \<^verbatim>\<open>byte_len\<close> bytes.
\<close>

subsection \<open>UTF-8 utilities\<close>

type_synonym byte = "8 word"
type_synonym codepoint = "32 word"

definition utf8_char_len :: "byte \<Rightarrow> nat" where
  "utf8_char_len first_byte =
     (if first_byte AND 0x80 = 0 then 1
      else if first_byte AND 0xE0 = 0xC0 then 2
      else if first_byte AND 0xF0 = 0xE0 then 3
      else if first_byte AND 0xF8 = 0xF0 then 4
      else 1)"

text \<open>\<^verbatim>\<open>utf8_decode(str, len, &bytes_read)\<close>: the result is the pair of the returned
  scalar and \<^verbatim>\<open>*bytes_read\<close>.\<close>

definition utf8_decode :: "byte list \<Rightarrow> codepoint \<times> nat" where
  "utf8_decode str =
     (if length str = 0 then (0, 0)
      else
        let first = str ! 0; char_len = utf8_char_len first in
        if char_len > length str then (0xFFFD, 1)
        else
          (if char_len = 1 then ucast first
           else if char_len = 2 then
             push_bit 6 (ucast (first AND 0x1F)) OR ucast (str ! 1 AND 0x3F)
           else if char_len = 3 then
             push_bit 12 (ucast (first AND 0x0F)) OR
             push_bit 6 (ucast (str ! 1 AND 0x3F)) OR
             ucast (str ! 2 AND 0x3F)
           else if char_len = 4 then
             push_bit 18 (ucast (first AND 0x07)) OR
             push_bit 12 (ucast (str ! 1 AND 0x3F)) OR
             push_bit 6 (ucast (str ! 2 AND 0x3F)) OR
             ucast (str ! 3 AND 0x3F)
           else 0xFFFD,
           char_len))"

lemma utf8_char_len_pos: "0 < utf8_char_len b"
  by (simp add: utf8_char_len_def)

lemma utf8_char_len_le4: "utf8_char_len b \<le> 4"
  by (simp add: utf8_char_len_def)

lemma utf8_step_decreases:
  "pos < n \<Longrightarrow> n - (pos + utf8_char_len b) < n - pos"
  using utf8_char_len_pos [of b] by arith

function utf8_char_count_loop :: "byte list \<Rightarrow> nat \<Rightarrow> nat \<Rightarrow> nat" where
  "utf8_char_count_loop str pos count =
     (if pos < length str then
        (let char_len = utf8_char_len (str ! pos);
             char_len = (if char_len > length str - pos then length str - pos else char_len)
         in utf8_char_count_loop str (pos + char_len) (count + 1))
      else count)"
  by pat_completeness auto
termination
  by (relation "measure (\<lambda>(str, pos, count). length str - pos)") (auto simp: utf8_step_decreases)

declare utf8_char_count_loop.simps [simp del]

definition utf8_char_count :: "byte list \<Rightarrow> nat" where
  "utf8_char_count str = utf8_char_count_loop str 0 0"

primrec count_newlines :: "byte list \<Rightarrow> nat" where
  "count_newlines [] = 0"
| "count_newlines (c # str) = (if c = 0x0A then 1 else 0) + count_newlines str"

function utf8_char_to_byte_loop :: "byte list \<Rightarrow> nat \<Rightarrow> nat \<Rightarrow> nat \<Rightarrow> nat" where
  "utf8_char_to_byte_loop str char_pos byte_pos current_char =
     (if byte_pos < length str \<and> current_char < char_pos then
        (let char_len = utf8_char_len (str ! byte_pos) in
         if char_len > length str - byte_pos then byte_pos
         else utf8_char_to_byte_loop str char_pos (byte_pos + char_len) (current_char + 1))
      else byte_pos)"
  by pat_completeness auto
termination
  by (relation "measure (\<lambda>(str, char_pos, byte_pos, current_char). length str - byte_pos)") (auto simp: utf8_step_decreases)

declare utf8_char_to_byte_loop.simps [simp del]

definition utf8_char_to_byte :: "byte list \<Rightarrow> nat \<Rightarrow> nat" where
  "utf8_char_to_byte str char_pos = utf8_char_to_byte_loop str char_pos 0 0"

function utf8_byte_to_char_loop :: "byte list \<Rightarrow> nat \<Rightarrow> nat \<Rightarrow> nat \<Rightarrow> nat" where
  "utf8_byte_to_char_loop str byte_pos current_byte char_pos =
     (if current_byte < byte_pos \<and> current_byte < length str then
        (let char_len = utf8_char_len (str ! current_byte) in
         if char_len > length str - current_byte then char_pos
         else if current_byte + char_len > byte_pos then char_pos
         else utf8_byte_to_char_loop str byte_pos (current_byte + char_len) (char_pos + 1))
      else char_pos)"
  by pat_completeness auto
termination
  by (relation "measure (\<lambda>(str, byte_pos, current_byte, char_pos). length str - current_byte)") (auto simp: utf8_step_decreases)

declare utf8_byte_to_char_loop.simps [simp del]

definition utf8_byte_to_char :: "byte list \<Rightarrow> nat \<Rightarrow> nat" where
  "utf8_byte_to_char str byte_pos =
     (if byte_pos \<ge> length str then utf8_char_count str
      else utf8_byte_to_char_loop str byte_pos 0 0)"

subsection \<open>Nodes\<close>

datatype rb_color = RB_RED | RB_BLACK

datatype rope_node =
    Null
  | Leaf (color: rb_color) (byte_weight: nat) (char_weight: nat) (newline_weight: nat)
      (leaf_data: "byte list") (leaf_char_len: nat) (leaf_newlines: nat)
  | Branch (color: rb_color) (byte_weight: nat) (char_weight: nat) (newline_weight: nat)
      (left: rope_node) (right: rope_node)

record rope =
  root :: rope_node
  byte_len :: nat
  char_len :: nat
  newlines :: nat

record rope_stats_t =
  bytes :: nat
  chars :: nat
  stat_newlines :: nat

fun is_leaf :: "rope_node \<Rightarrow> bool" where
  "is_leaf (Leaf c bw cw nw d cl nl) = True"
| "is_leaf (Branch c bw cw nw l r) = False"

text \<open>The assignment \<^verbatim>\<open>node->color = c\<close> on a node that the source does not test
  for \<^verbatim>\<open>NULL\<close>.\<close>

fun assign_color :: "rope_node \<Rightarrow> rb_color \<Rightarrow> rope_node" where
  "assign_color (Leaf c bw cw nw d cl nl) c' = Leaf c' bw cw nw d cl nl"
| "assign_color (Branch c bw cw nw l r) c' = Branch c' bw cw nw l r"

fun node_byte_len :: "rope_node \<Rightarrow> nat" where
  "node_byte_len Null = 0"
| "node_byte_len (Leaf c bw cw nw d cl nl) = length d"
| "node_byte_len (Branch c bw cw nw l r) = bw + node_byte_len r"

fun node_char_len :: "rope_node \<Rightarrow> nat" where
  "node_char_len Null = 0"
| "node_char_len (Leaf c bw cw nw d cl nl) = cl"
| "node_char_len (Branch c bw cw nw l r) = cw + node_char_len r"

fun node_newline_count :: "rope_node \<Rightarrow> nat" where
  "node_newline_count Null = 0"
| "node_newline_count (Leaf c bw cw nw d cl nl) = nl"
| "node_newline_count (Branch c bw cw nw l r) = nw + node_newline_count r"

definition node_new_leaf :: "byte list \<Rightarrow> rope_node" where
  "node_new_leaf str =
     Leaf RB_RED (length str) (utf8_char_count str) (count_newlines str)
       str (utf8_char_count str) (count_newlines str)"

fun node_new_branch :: "rope_node \<Rightarrow> rope_node \<Rightarrow> rope_node" where
  "node_new_branch (Leaf c bw cw nw d cl nl) rgt =
     Branch RB_RED bw cw nw (Leaf c bw cw nw d cl nl) rgt"
| "node_new_branch (Branch c bw cw nw l r) rgt =
     Branch RB_RED
       (bw + (if r \<noteq> Null then node_byte_len r else 0))
       (cw + (if r \<noteq> Null then node_char_len r else 0))
       (nw + (if r \<noteq> Null then node_newline_count r else 0))
       (Branch c bw cw nw l r) rgt"

fun node_update_weights :: "rope_node \<Rightarrow> rope_node" where
  "node_update_weights Null = Null"
| "node_update_weights (Leaf c bw cw nw d cl nl) = Leaf c bw cw nw d cl nl"
| "node_update_weights (Branch c bw cw nw l r) =
     (if l \<noteq> Null
      then Branch c (node_byte_len l) (node_char_len l) (node_newline_count l) l r
      else Branch c 0 0 0 l r)"

subsection \<open>Red-black operations\<close>

fun node_color :: "rope_node \<Rightarrow> rb_color" where
  "node_color Null = RB_BLACK"
| "node_color (Leaf c bw cw nw d cl nl) = c"
| "node_color (Branch c bw cw nw l r) = c"

fun node_set_color :: "rope_node \<Rightarrow> rb_color \<Rightarrow> rope_node" where
  "node_set_color Null c' = Null"
| "node_set_color (Leaf c bw cw nw d cl nl) c' = Leaf c' bw cw nw d cl nl"
| "node_set_color (Branch c bw cw nw l r) c' = Branch c' bw cw nw l r"

fun rotate_left :: "rope_node \<Rightarrow> rope_node" where
  "rotate_left (Branch c bw cw nw l (Branch rc rbw rcw rnw rl rr)) =
     node_update_weights
       (Branch c rbw rcw rnw (node_update_weights (Branch RB_RED bw cw nw l rl)) rr)"
| "rotate_left node = node"

fun rotate_right :: "rope_node \<Rightarrow> rope_node" where
  "rotate_right (Branch c bw cw nw (Branch lc lbw lcw lnw ll lr) r) =
     node_update_weights
       (Branch c lbw lcw lnw ll (node_update_weights (Branch RB_RED bw cw nw lr r)))"
| "rotate_right node = node"

fun flip_colors :: "rope_node \<Rightarrow> rope_node" where
  "flip_colors (Branch c bw cw nw l r) =
     Branch RB_RED bw cw nw (node_set_color l RB_BLACK) (node_set_color r RB_BLACK)"

definition is_branch :: "rope_node \<Rightarrow> bool" where
  "is_branch n = (n \<noteq> Null \<and> \<not> is_leaf n)"

fun balance :: "rope_node \<Rightarrow> rope_node" where
  "balance Null = Null"
| "balance (Leaf c bw cw nw d cl nl) = Leaf c bw cw nw d cl nl"
| "balance (Branch c bw cw nw l r) =
     (let left_is_branch = is_branch l;
          right_is_branch = is_branch r;
          node = Branch c bw cw nw l r;
          node = (if node_color (right node) = RB_RED \<and> node_color (left node) = RB_BLACK
                     \<and> right_is_branch
                  then rotate_left node else node);
          node = (if node_color (left node) = RB_RED \<and> left_is_branch
                     \<and> left (left node) \<noteq> Null
                     \<and> node_color (left (left node)) = RB_RED
                  then rotate_right node else node);
          node = (if node_color (left node) = RB_RED \<and> node_color (right node) = RB_RED
                  then flip_colors node else node)
      in node)"

subsection \<open>Core rope operations\<close>

definition rope_new :: "rope" where
  "rope_new = \<lparr>root = Null, byte_len = 0, char_len = 0, newlines = 0\<rparr>"

definition rope_new_from_str :: "byte list \<Rightarrow> rope" where
  "rope_new_from_str str =
     (if length str > 0 then
        (let leaf = assign_color (node_new_leaf str) RB_BLACK in
         \<lparr>root = leaf, byte_len = length str,
          char_len = leaf_char_len leaf, newlines = leaf_newlines leaf\<rparr>)
      else rope_new)"

definition rope_byte_length :: "rope option \<Rightarrow> nat" where
  "rope_byte_length rope = (case rope of None \<Rightarrow> 0 | Some r \<Rightarrow> byte_len r)"

definition rope_char_length :: "rope option \<Rightarrow> nat" where
  "rope_char_length rope = (case rope of None \<Rightarrow> 0 | Some r \<Rightarrow> char_len r)"

definition rope_stats :: "rope option \<Rightarrow> rope_stats_t" where
  "rope_stats rope =
     (case rope of
        None \<Rightarrow> \<lparr>bytes = 0, chars = 0, stat_newlines = 0\<rparr>
      | Some r \<Rightarrow> \<lparr>bytes = byte_len r, chars = char_len r, stat_newlines = newlines r\<rparr>)"

subsection \<open>Character access\<close>

text \<open>The descent loops \<^verbatim>\<open>while (node && !node->is_leaf)\<close> follow one path of the
  tree; each is a structural recursion, with the code after the loop in the \<open>Leaf\<close> and
  \<open>Null\<close> equations.\<close>

fun char_to_byte_walk :: "rope_node \<Rightarrow> nat \<Rightarrow> nat \<Rightarrow> nat" where
  "char_to_byte_walk Null char_pos byte_offset = byte_offset"
| "char_to_byte_walk (Leaf c bw cw nw d cl nl) char_pos byte_offset =
     byte_offset + utf8_char_to_byte d char_pos"
| "char_to_byte_walk (Branch c bw cw nw l r) char_pos byte_offset =
     (if char_pos < cw then char_to_byte_walk l char_pos byte_offset
      else char_to_byte_walk r (char_pos - cw) (byte_offset + bw))"

definition rope_char_to_byte :: "rope option \<Rightarrow> nat \<Rightarrow> nat" where
  "rope_char_to_byte rope char_pos =
     (case rope of
        None \<Rightarrow> 0
      | Some r \<Rightarrow>
          if char_pos \<ge> char_len r then byte_len r
          else char_to_byte_walk (root r) char_pos 0)"

fun byte_to_char_walk :: "rope_node \<Rightarrow> nat \<Rightarrow> nat \<Rightarrow> nat" where
  "byte_to_char_walk Null byte_pos char_offset = char_offset"
| "byte_to_char_walk (Leaf c bw cw nw d cl nl) byte_pos char_offset =
     char_offset + utf8_byte_to_char d byte_pos"
| "byte_to_char_walk (Branch c bw cw nw l r) byte_pos char_offset =
     (if byte_pos < bw then byte_to_char_walk l byte_pos char_offset
      else byte_to_char_walk r (byte_pos - bw) (char_offset + cw))"

definition rope_byte_to_char :: "rope option \<Rightarrow> nat \<Rightarrow> nat" where
  "rope_byte_to_char rope byte_pos =
     (case rope of
        None \<Rightarrow> 0
      | Some r \<Rightarrow>
          if byte_pos \<ge> byte_len r then char_len r
          else byte_to_char_walk (root r) byte_pos 0)"

fun char_at_walk :: "rope_node \<Rightarrow> nat \<Rightarrow> codepoint" where
  "char_at_walk Null byte_pos = 0"
| "char_at_walk (Leaf c bw cw nw d cl nl) byte_pos =
     (if byte_pos < length d then fst (utf8_decode (drop byte_pos d)) else 0)"
| "char_at_walk (Branch c bw cw nw l r) byte_pos =
     (if byte_pos < bw then char_at_walk l byte_pos
      else char_at_walk r (byte_pos - bw))"

definition rope_char_at :: "rope option \<Rightarrow> nat \<Rightarrow> codepoint" where
  "rope_char_at rope char_pos =
     (case rope of
        None \<Rightarrow> 0
      | Some r \<Rightarrow>
          if char_pos \<ge> char_len r then 0
          else char_at_walk (root r) (rope_char_to_byte rope char_pos))"

subsection \<open>Concatenation and split\<close>

definition rope_concat :: "rope option \<Rightarrow> rope option \<Rightarrow> rope option" where
  "rope_concat lft rgt =
     (case lft of
        None \<Rightarrow> rgt
      | Some l \<Rightarrow>
          if byte_len l = 0 then rgt
          else
            (case rgt of
               None \<Rightarrow> lft
             | Some r \<Rightarrow>
                 if byte_len r = 0 then lft
                 else
                   Some \<lparr>root = assign_color (node_new_branch (root l) (root r)) RB_BLACK,
                         byte_len = byte_len l + byte_len r,
                         char_len = char_len l + char_len r,
                         newlines = newlines l + newlines r\<rparr>))"

text \<open>\<^verbatim>\<open>split_leaf\<close> and \<^verbatim>\<open>node_split_recursive\<close> return \<^verbatim>\<open>(*left_out, *right_out)\<close>.\<close>

fun split_leaf :: "rope_node \<Rightarrow> nat \<Rightarrow> rope_node \<times> rope_node" where
  "split_leaf (Leaf c bw cw nw d cl nl) byte_pos =
     (if byte_pos = 0 then (Null, Leaf c bw cw nw d cl nl)
      else if byte_pos \<ge> length d then (Leaf c bw cw nw d cl nl, Null)
      else (assign_color (node_new_leaf (take byte_pos d)) c,
            assign_color (node_new_leaf (drop byte_pos d)) c))"

fun node_split_recursive :: "rope_node \<Rightarrow> nat \<Rightarrow> rope_node \<times> rope_node" where
  "node_split_recursive Null byte_pos = (Null, Null)"
| "node_split_recursive (Leaf c bw cw nw d cl nl) byte_pos =
     split_leaf (Leaf c bw cw nw d cl nl) byte_pos"
| "node_split_recursive (Branch c bw cw nw l r) byte_pos =
     (if byte_pos \<le> bw then
        (case node_split_recursive l byte_pos of
           (ll, lr) \<Rightarrow>
             if lr \<noteq> Null \<and> r \<noteq> Null
             then (ll, assign_color (node_new_branch lr r) c)
             else (ll, if lr \<noteq> Null then lr else r))
      else
        (case node_split_recursive r (byte_pos - bw) of
           (rl, rr) \<Rightarrow>
             if rl \<noteq> Null \<and> l \<noteq> Null
             then (assign_color (node_new_branch l rl) c, rr)
             else (l, rr)))"

text \<open>The rope handle that wraps one tree of a split: \<^verbatim>\<open>rope_new\<close>, then the root and,
  for a tree that is not \<^verbatim>\<open>NULL\<close>, the black root and the three totals.\<close>

definition rope_of_tree :: "rope_node \<Rightarrow> rope" where
  "rope_of_tree tree =
     (if tree \<noteq> Null then
        (let tree = assign_color tree RB_BLACK in
         \<lparr>root = tree, byte_len = node_byte_len tree,
          char_len = node_char_len tree, newlines = node_newline_count tree\<rparr>)
      else rope_new\<lparr>root := tree\<rparr>)"

text \<open>\<^verbatim>\<open>rope_split_bytes(rope, byte_pos, right_out)\<close> returns the left rope and
  \<^verbatim>\<open>*right_out\<close>; \<open>has_right_out\<close> tells whether \<^verbatim>\<open>right_out\<close> is not \<^verbatim>\<open>NULL\<close>, and
  without it the second component is \<open>None\<close>.\<close>

definition rope_split_bytes :: "rope option \<Rightarrow> nat \<Rightarrow> bool \<Rightarrow> rope option \<times> rope option" where
  "rope_split_bytes rope byte_pos has_right_out =
     (case rope of
        None \<Rightarrow> (None, None)
      | Some r \<Rightarrow>
          if byte_pos = 0 then
            (Some rope_new, if has_right_out then Some r else None)
          else if byte_pos \<ge> byte_len r then
            (Some r, if has_right_out then Some rope_new else None)
          else
            (case node_split_recursive (root r) byte_pos of
               (left_tree, right_tree) \<Rightarrow>
                 (Some (rope_of_tree left_tree),
                  if has_right_out then Some (rope_of_tree right_tree) else None)))"

definition rope_split_chars :: "rope option \<Rightarrow> nat \<Rightarrow> bool \<Rightarrow> rope option \<times> rope option" where
  "rope_split_chars rope char_pos has_right_out =
     (case rope of
        None \<Rightarrow> (None, None)
      | Some r \<Rightarrow> rope_split_bytes rope (rope_char_to_byte rope char_pos) has_right_out)"

subsection \<open>Insertion and deletion\<close>

fun node_insert_bytes :: "rope_node \<Rightarrow> nat \<Rightarrow> byte list \<Rightarrow> rope_node" where
  "node_insert_bytes (Leaf c bw cw nw d cl nl) byte_pos str =
     (if byte_pos = 0 then
        balance (node_new_branch (node_new_leaf str) (Leaf c bw cw nw d cl nl))
      else if byte_pos \<ge> length d then
        balance (node_new_branch (Leaf c bw cw nw d cl nl) (node_new_leaf str))
      else
        (let lft = node_new_leaf (take byte_pos d);
             mid = node_new_leaf str;
             rgt = node_new_leaf (drop byte_pos d);
             left_branch = node_new_branch lft mid
         in balance (node_new_branch left_branch rgt)))"
| "node_insert_bytes (Branch c bw cw nw l r) byte_pos str =
     (if byte_pos \<le> bw then
        balance (node_update_weights (Branch c bw cw nw (node_insert_bytes l byte_pos str) r))
      else
        balance (node_update_weights
                   (Branch c bw cw nw l (node_insert_bytes r (byte_pos - bw) str))))"

definition rope_insert_bytes :: "rope option \<Rightarrow> nat \<Rightarrow> byte list \<Rightarrow> rope option" where
  "rope_insert_bytes rope byte_pos str =
     (case rope of
        None \<Rightarrow> None
      | Some r \<Rightarrow>
          if length str = 0 then Some r
          else
            (let byte_pos = (if byte_pos > byte_len r then byte_len r else byte_pos);
                 new_root =
                   (if root r = Null then assign_color (node_new_leaf str) RB_BLACK
                    else assign_color (node_insert_bytes (root r) byte_pos str) RB_BLACK)
             in Some \<lparr>root = new_root,
                      byte_len = byte_len r + length str,
                      char_len = char_len r + utf8_char_count str,
                      newlines = newlines r + count_newlines str\<rparr>))"

definition rope_insert_chars :: "rope option \<Rightarrow> nat \<Rightarrow> byte list \<Rightarrow> rope option" where
  "rope_insert_chars rope char_pos str =
     (case rope of
        None \<Rightarrow> None
      | Some r \<Rightarrow> rope_insert_bytes rope (rope_char_to_byte rope char_pos) str)"

text \<open>\<^verbatim>\<open>rope_delete_bytes\<close>: \<^verbatim>\<open>byte_start + byte_len\<close> is a \<^verbatim>\<open>size_t\<close> sum of two
  arguments and wraps at \<open>2 ^ 64\<close>. Both splits pass a \<^verbatim>\<open>right_out\<close>.\<close>

definition rope_delete_bytes :: "rope option \<Rightarrow> nat \<Rightarrow> nat \<Rightarrow> rope option" where
  "rope_delete_bytes rope byte_start len =
     (case rope of
        None \<Rightarrow> None
      | Some r \<Rightarrow>
          if byte_start \<ge> byte_len r then Some r
          else
            (let len = (if (byte_start + len) mod 2 ^ 64 > byte_len r
                        then byte_len r - byte_start else len)
             in if len = 0 then Some r
                else
                  (case rope_split_bytes (Some r) byte_start True of
                     (rope1, rgt) \<Rightarrow>
                       if rgt \<noteq> None then
                         (case rope_split_bytes rgt len True of
                            (middle, rightmost) \<Rightarrow>
                              if rightmost \<noteq> None then rope_concat rope1 rightmost
                              else rope1)
                       else rope1)))"

subsection \<open>Flattening\<close>

datatype error = Stack_Overflow

text \<open>The inner loop of \<^verbatim>\<open>rope_to_string\<close> pushes branches while it goes left. The
  stack is \<^verbatim>\<open>rope_node_t *stack[64]\<close>, its top the head of the list.\<close>

fun push_left_spine :: "rope_node \<Rightarrow> rope_node list \<Rightarrow> error + rope_node \<times> rope_node list" where
  "push_left_spine Null stack = Inr (Null, stack)"
| "push_left_spine (Leaf c bw cw nw d cl nl) stack = Inr (Leaf c bw cw nw d cl nl, stack)"
| "push_left_spine (Branch c bw cw nw l r) stack =
     (if length stack \<ge> 64 then Inl Stack_Overflow
      else push_left_spine l (Branch c bw cw nw l r # stack))"

fun node_count :: "rope_node \<Rightarrow> nat" where
  "node_count Null = 0"
| "node_count (Leaf c bw cw nw d cl nl) = 1"
| "node_count (Branch c bw cw nw l r) = 1 + node_count l + node_count r"

definition pending :: "rope_node list \<Rightarrow> nat" where
  "pending stack = sum_list (map (\<lambda>n. 1 + node_count (right n)) stack)"

lemma push_left_spine_pending:
  "push_left_spine n stack = Inr (n', stack') \<Longrightarrow>
   node_count n' + pending stack' = node_count n + pending stack"
  by (induction n stack rule: push_left_spine.induct)
     (auto simp: pending_def split: if_splits)

function to_string_loop :: "rope_node \<Rightarrow> rope_node list \<Rightarrow> byte list \<Rightarrow> error + byte list" where
  "to_string_loop current stack str =
     (if current \<noteq> Null \<or> stack \<noteq> [] then
        (case push_left_spine current stack of
           Inl e \<Rightarrow> Inl e
         | Inr (current, stack) \<Rightarrow>
             (let str = (if current \<noteq> Null \<and> is_leaf current
                         then str @ leaf_data current else str)
              in case stack of
                   [] \<Rightarrow> to_string_loop Null [] str
                 | parent # stack \<Rightarrow> to_string_loop (right parent) stack str))
      else Inr str)"
  by pat_completeness auto
termination
proof (relation "measure (\<lambda>(current, stack, str). node_count current + pending stack)")
  show "wf (measure (\<lambda>(current, stack, str). node_count current + pending stack))"
    by simp
next
  fix current :: rope_node and stack :: "rope_node list" and str :: "byte list"
    and x2 x y xa
  assume nonempty: "current \<noteq> Null \<or> stack \<noteq> []"
    and spine: "push_left_spine current stack = Inr x2" "(x, y) = x2" and "y = []"
  from spine have "push_left_spine current stack = Inr (x, y)" by simp
  from push_left_spine_pending [OF this] nonempty \<open>y = []\<close>
  have "0 < node_count current + pending stack"
    by (cases current; cases stack) (auto simp: pending_def)
  then show "((Null, [], xa), (current, stack, str))
             \<in> measure (\<lambda>(current, stack, str). node_count current + pending stack)"
    by (simp add: pending_def)
next
  fix current :: rope_node and stack :: "rope_node list" and str :: "byte list"
    and x2 x y xa x21 x22
  assume spine: "push_left_spine current stack = Inr x2" "(x, y) = x2" and "y = x21 # x22"
  from spine have "push_left_spine current stack = Inr (x, y)" by simp
  from push_left_spine_pending [OF this] \<open>y = x21 # x22\<close>
  show "((right x21, x22, xa), (current, stack, str))
        \<in> measure (\<lambda>(current, stack, str). node_count current + pending stack)"
    by (simp add: pending_def)
qed

declare to_string_loop.simps [simp del]

text \<open>\<^verbatim>\<open>rope_to_string\<close> returns the buffer with its length \<^verbatim>\<open>*len_out\<close>; the
  \<^verbatim>\<open>NULL\<close> it returns for an empty rope, with length 0, is the empty list.\<close>

definition rope_to_string :: "rope option \<Rightarrow> error + byte list" where
  "rope_to_string rope =
     (case rope of
        None \<Rightarrow> Inr []
      | Some r \<Rightarrow>
          if byte_len r = 0 then Inr []
          else to_string_loop (root r) [] [])"

subsection \<open>Line operations\<close>

definition rope_line_count :: "rope option \<Rightarrow> nat" where
  "rope_line_count rope = (case rope of None \<Rightarrow> 1 | Some r \<Rightarrow> newlines r + 1)"




subsection \<open>Properties of trees and ropes\<close>

text \<open>The colouring rule of a red-black tree: a red branch has no red child. A leaf
  has no children, and \<^verbatim>\<open>NULL\<close> counts as black.\<close>

fun red_red_free :: "rope_node \<Rightarrow> bool" where
  "red_red_free Null = True"
| "red_red_free (Leaf c bw cw nw d cl nl) = True"
| "red_red_free (Branch RB_RED bw cw nw l r) =
     (node_color l = RB_BLACK \<and> node_color r = RB_BLACK \<and> red_red_free l \<and> red_red_free r)"
| "red_red_free (Branch RB_BLACK bw cw nw l r) = (red_red_free l \<and> red_red_free r)"

text \<open>The characters of a tree counted again from the bytes of its leaves.\<close>

fun recomputed_char_count :: "rope_node \<Rightarrow> nat" where
  "recomputed_char_count Null = 0"
| "recomputed_char_count (Leaf c bw cw nw d cl nl) = utf8_char_count d"
| "recomputed_char_count (Branch c bw cw nw l r) =
     recomputed_char_count l + recomputed_char_count r"

text \<open>The bytes of a tree, leaf after leaf from left to right.\<close>

fun node_bytes :: "rope_node \<Rightarrow> byte list" where
  "node_bytes Null = []"
| "node_bytes (Leaf c bw cw nw d cl nl) = d"
| "node_bytes (Branch c bw cw nw l r) = node_bytes l @ node_bytes r"

text \<open>Metric consistency, without the colours: every child is present, a leaf is not
  empty and stores the counts of its bytes, a branch caches the totals of its left
  subtree.\<close>

fun tree_ok :: "rope_node \<Rightarrow> bool" where
  "tree_ok Null = False"
| "tree_ok (Leaf c bw cw nw d cl nl) =
     (d \<noteq> [] \<and> bw = length d \<and> cw = cl \<and> nw = nl \<and>
      cl = utf8_char_count d \<and> nl = count_newlines d)"
| "tree_ok (Branch c bw cw nw l r) =
     (tree_ok l \<and> tree_ok r \<and> bw = node_byte_len l \<and> cw = node_char_len l \<and>
      nw = node_newline_count l)"

text \<open>The part of the rope invariant that every public operation keeps: the tree is
  consistent, its root is black, and the cached byte and newline totals are those of
  the tree. The cached \<^verbatim>\<open>char_len\<close> is left out (see C2).\<close>

definition rope_ok :: "rope \<Rightarrow> bool" where
  "rope_ok r =
     (if root r = Null then byte_len r = 0 \<and> char_len r = 0 \<and> newlines r = 0
      else tree_ok (root r) \<and> node_color (root r) = RB_BLACK \<and>
           byte_len r = node_byte_len (root r) \<and>
           newlines r = node_newline_count (root r))"

lemma tree_ok_not_Null [simp]: "tree_ok n \<Longrightarrow> n \<noteq> Null"
  by (cases n) auto

lemma tree_ok_byte_len: "tree_ok n \<Longrightarrow> node_byte_len n = length (node_bytes n)"
  by (induction n) auto

lemma count_newlines_append: "count_newlines (xs @ ys) = count_newlines xs + count_newlines ys"
  by (induction xs) auto

lemma tree_ok_newline_count: "tree_ok n \<Longrightarrow> node_newline_count n = count_newlines (node_bytes n)"
  by (induction n) (auto simp: count_newlines_append)

lemma tree_ok_bytes_nonempty: "tree_ok n \<Longrightarrow> node_bytes n \<noteq> []"
  by (induction n) auto

lemma assign_color_props [simp]:
  "n \<noteq> Null \<Longrightarrow> tree_ok (assign_color n c) = tree_ok n"
  "n \<noteq> Null \<Longrightarrow> node_bytes (assign_color n c) = node_bytes n"
  "n \<noteq> Null \<Longrightarrow> node_byte_len (assign_color n c) = node_byte_len n"
  "n \<noteq> Null \<Longrightarrow> node_char_len (assign_color n c) = node_char_len n"
  "n \<noteq> Null \<Longrightarrow> node_newline_count (assign_color n c) = node_newline_count n"
  "n \<noteq> Null \<Longrightarrow> node_color (assign_color n c) = c"
  "n \<noteq> Null \<Longrightarrow> assign_color n c \<noteq> Null"
  by (cases n; simp)+

lemma node_new_leaf_props [simp]:
  "str \<noteq> [] \<Longrightarrow> tree_ok (node_new_leaf str)"
  "node_bytes (node_new_leaf str) = str"
  "node_new_leaf str \<noteq> Null"
  by (simp_all add: node_new_leaf_def)

lemma node_new_branch_props [simp]:
  "tree_ok l \<Longrightarrow> tree_ok r \<Longrightarrow> tree_ok (node_new_branch l r)"
  "l \<noteq> Null \<Longrightarrow> node_bytes (node_new_branch l r) = node_bytes l @ node_bytes r"
  "l \<noteq> Null \<Longrightarrow> node_new_branch l r \<noteq> Null"
  by (cases l; auto)+

lemma split_leaf_ok:
  "tree_ok (Leaf c bw cw nw d cl nl) \<Longrightarrow> split_leaf (Leaf c bw cw nw d cl nl) p = (a, b) \<Longrightarrow>
   (a = Null \<or> tree_ok a) \<and> (b = Null \<or> tree_ok b) \<and>
   node_bytes a = take p d \<and> node_bytes b = drop p d"
  by (auto split: if_splits)

lemma node_split_recursive_ok:
  "tree_ok n \<Longrightarrow> node_split_recursive n p = (a, b) \<Longrightarrow>
   (a = Null \<or> tree_ok a) \<and> (b = Null \<or> tree_ok b) \<and>
   node_bytes a = take p (node_bytes n) \<and> node_bytes b = drop p (node_bytes n)"
proof (induction n arbitrary: p a b)
  case Null
  then show ?case by simp
next
  case (Leaf c bw cw nw d cl nl)
  then show ?case using split_leaf_ok [of c bw cw nw d cl nl p a b] by simp
next
  case (Branch c bw cw nw l r)
  from Branch.prems have ok: "tree_ok l" "tree_ok r" and bw: "bw = length (node_bytes l)"
    by (simp_all add: tree_ok_byte_len)
  show ?case
  proof (cases "p \<le> bw")
    case True
    obtain ll lr where sp: "node_split_recursive l p = (ll, lr)" by fastforce
    from Branch.IH(1) [OF ok(1) sp]
    have ih: "ll = Null \<or> tree_ok ll" "lr = Null \<or> tree_ok lr"
      "node_bytes ll = take p (node_bytes l)" "node_bytes lr = drop p (node_bytes l)"
      by simp_all
    from Branch.prems(2) True sp
    have ab: "a = ll" "b = (if lr \<noteq> Null \<and> r \<noteq> Null then assign_color (node_new_branch lr r) c
                            else if lr \<noteq> Null then lr else r)"
      by (auto split: if_splits)
    show ?thesis using ih ok True bw ab by auto
  next
    case False
    obtain rl rr where sp: "node_split_recursive r (p - bw) = (rl, rr)" by fastforce
    from Branch.IH(2) [OF ok(2) sp]
    have ih: "rl = Null \<or> tree_ok rl" "rr = Null \<or> tree_ok rr"
      "node_bytes rl = take (p - bw) (node_bytes r)" "node_bytes rr = drop (p - bw) (node_bytes r)"
      by simp_all
    from Branch.prems(2) False sp
    have ab: "b = rr" "a = (if rl \<noteq> Null \<and> l \<noteq> Null then assign_color (node_new_branch l rl) c
                            else l)"
      by (auto split: if_splits)
    show ?thesis using ih ok False bw ab by auto
  qed
qed


lemma node_split_recursive_lens:
  assumes "tree_ok n" "node_split_recursive n p = (a, b)"
  shows "node_byte_len a = min p (node_byte_len n)" "node_byte_len b = node_byte_len n - p"
proof -
  from node_split_recursive_ok [OF assms]
  have *: "a = Null \<or> tree_ok a" "b = Null \<or> tree_ok b"
    "node_bytes a = take p (node_bytes n)" "node_bytes b = drop p (node_bytes n)" by simp_all
  have "node_byte_len a = length (node_bytes a)" using *(1) by (auto simp: tree_ok_byte_len)
  then show "node_byte_len a = min p (node_byte_len n)"
    using *(3) assms(1) by (simp add: tree_ok_byte_len min.commute)
  have "node_byte_len b = length (node_bytes b)" using *(2) by (auto simp: tree_ok_byte_len)
  then show "node_byte_len b = node_byte_len n - p"
    using *(4) assms(1) by (simp add: tree_ok_byte_len)
qed

lemma rope_of_tree_ok: "t = Null \<or> tree_ok t \<Longrightarrow> rope_ok (rope_of_tree t)"
  by (auto simp: rope_of_tree_def rope_ok_def rope_new_def Let_def)

lemma rope_of_tree_fields [simp]:
  "t = Null \<or> tree_ok t \<Longrightarrow> byte_len (rope_of_tree t) = node_byte_len t"
  "t = Null \<or> tree_ok t \<Longrightarrow> node_bytes (root (rope_of_tree t)) = node_bytes t"
  by (auto simp: rope_of_tree_def rope_new_def Let_def)

lemma rope_ok_byte_len: "rope_ok r \<Longrightarrow> byte_len r = length (node_bytes (root r))"
  by (auto simp: rope_ok_def tree_ok_byte_len split: if_splits)

lemma rope_ok_new [simp]: "rope_ok rope_new"
  by (simp add: rope_ok_def rope_new_def)

lemma rope_new_fields [simp]:
  "root rope_new = Null" "byte_len rope_new = 0" "char_len rope_new = 0" "newlines rope_new = 0"
  by (simp_all add: rope_new_def)

lemma rope_split_bytes_ok:
  assumes "rope_ok r" "rope_split_bytes (Some r) p True = (lft, rgt)"
  shows "\<exists>a b. lft = Some a \<and> rgt = Some b \<and> rope_ok a \<and> rope_ok b \<and>
           node_bytes (root a) = take p (node_bytes (root r)) \<and>
           node_bytes (root b) = drop p (node_bytes (root r))"
proof (cases "p = 0 \<or> p \<ge> byte_len r")
  case True
  then show ?thesis using assms rope_ok_byte_len [OF assms(1)]
    by (auto simp: rope_split_bytes_def split: if_splits)
next
  case False
  then have tok: "tree_ok (root r)" using assms(1) by (auto simp: rope_ok_def split: if_splits)
  obtain a b where sp: "node_split_recursive (root r) p = (a, b)" by fastforce
  from node_split_recursive_ok [OF tok sp] False assms(2) sp
  show ?thesis
    by (auto simp: rope_split_bytes_def rope_of_tree_ok)
qed

lemma rope_concat_ok:
  assumes "rope_ok a" "rope_ok b"
  shows "\<exists>c. rope_concat (Some a) (Some b) = Some c \<and> rope_ok c \<and>
             node_bytes (root c) = node_bytes (root a) @ node_bytes (root b)"
proof (cases "byte_len a = 0")
  case True
  then have "node_bytes (root a) = []" using rope_ok_byte_len [OF assms(1)] by simp
  then show ?thesis using True assms(2) by (simp add: rope_concat_def)
next
  case a: False
  show ?thesis
  proof (cases "byte_len b = 0")
    case True
    then have "node_bytes (root b) = []" using rope_ok_byte_len [OF assms(2)] by simp
    then show ?thesis using True a assms(1) by (simp add: rope_concat_def)
  next
    case b: False
    have ta: "tree_ok (root a)" and la: "byte_len a = node_byte_len (root a)"
      and na: "newlines a = node_newline_count (root a)"
      using a assms(1) by (auto simp: rope_ok_def split: if_splits)
    have tb: "tree_ok (root b)" and lb: "byte_len b = node_byte_len (root b)"
      and nb: "newlines b = node_newline_count (root b)"
      using b assms(2) by (auto simp: rope_ok_def split: if_splits)
    let ?t = "node_new_branch (root a) (root b)"
    have t: "tree_ok ?t" "node_bytes ?t = node_bytes (root a) @ node_bytes (root b)" "?t \<noteq> Null"
      using ta tb by simp_all
    have "rope_ok \<lparr>root = assign_color ?t RB_BLACK,
                    byte_len = byte_len a + byte_len b,
                    char_len = char_len a + char_len b,
                    newlines = newlines a + newlines b\<rparr>"
      using t ta tb la lb na nb
      by (simp add: rope_ok_def tree_ok_byte_len tree_ok_newline_count count_newlines_append)
    then show ?thesis using a b t by (simp add: rope_concat_def)
  qed
qed


text \<open>\<open>fits n sp\<close>: the traversal of \<^verbatim>\<open>rope_to_string\<close> that reaches \<open>n\<close> with
  \<open>sp\<close> entries on its stack stays within the 64 entries.\<close>

fun fits :: "rope_node \<Rightarrow> nat \<Rightarrow> bool" where
  "fits Null sp = True"
| "fits (Leaf c bw cw nw d cl nl) sp = True"
| "fits (Branch c bw cw nw l r) sp = (sp < 64 \<and> fits l (Suc sp) \<and> fits r sp)"

fun stack_fits :: "rope_node list \<Rightarrow> bool" where
  "stack_fits [] = True"
| "stack_fits (t # st) = (fits (right t) (length st) \<and> stack_fits st)"

definition stack_bytes :: "rope_node list \<Rightarrow> byte list" where
  "stack_bytes st = concat (map (\<lambda>t. node_bytes (right t)) st)"

lemma push_left_spine_fits:
  "fits n (length st) \<Longrightarrow> stack_fits st \<Longrightarrow>
   \<exists>n' st'. push_left_spine n st = Inr (n', st') \<and> \<not> is_Branch n' \<and> stack_fits st' \<and>
     node_bytes n' @ stack_bytes st' = node_bytes n @ stack_bytes st"
proof (induction n arbitrary: st)
  case Null
  then show ?case by simp
next
  case (Leaf c bw cw nw d cl nl)
  then show ?case by simp
next
  case (Branch c bw cw nw l r)
  let ?st = "Branch c bw cw nw l r # st"
  from Branch.prems have "fits l (length ?st)" "stack_fits ?st" "length st < 64" by simp_all
  from Branch.IH(1) [OF this(1,2)] \<open>length st < 64\<close>
  show ?case by (auto simp: stack_bytes_def)
qed

lemma to_string_loop_fits:
  "fits cur (length st) \<Longrightarrow> stack_fits st \<Longrightarrow>
   to_string_loop cur st str = Inr (str @ node_bytes cur @ stack_bytes st)"
proof (induction cur st str rule: to_string_loop.induct)
  case (1 current stack str)
  show ?case
  proof (cases "current \<noteq> Null \<or> stack \<noteq> []")
    case False
    then show ?thesis by (simp add: to_string_loop.simps stack_bytes_def)
  next
    case True
    from push_left_spine_fits [OF "1.prems"] obtain n' st' where
      sp: "push_left_spine current stack = Inr (n', st')" and nb: "\<not> is_Branch n'"
      and sf: "stack_fits st'"
      and bs: "node_bytes n' @ stack_bytes st' = node_bytes current @ stack_bytes stack"
      by blast
    define str' where "str' = (if n' \<noteq> Null \<and> is_leaf n' then str @ leaf_data n' else str)"
    have str': "str' = str @ node_bytes n'"
      using nb by (cases n') (auto simp: str'_def)
    show ?thesis
    proof (cases st')
      case Nil
      have "to_string_loop current stack str = to_string_loop Null [] str'"
        using True sp Nil by (subst to_string_loop.simps) (simp add: str'_def)
      also have "\<dots> = Inr str'" by (simp add: to_string_loop.simps)
      finally show ?thesis using str' bs Nil by (simp add: stack_bytes_def)
    next
      case (Cons t rest)
      have step: "to_string_loop current stack str = to_string_loop (right t) rest str'"
        using True sp Cons by (subst to_string_loop.simps) (simp add: str'_def)
      from sf Cons have f: "fits (right t) (length rest)" "stack_fits rest" by simp_all
      have "to_string_loop (right t) rest str' = Inr (str' @ node_bytes (right t) @ stack_bytes rest)"
        using "1.IH"(2) [OF True sp refl str'_def Cons f] .
      then show ?thesis using step str' bs Cons by (simp add: stack_bytes_def)
    qed
  qed
qed

definition rope_fits :: "rope option \<Rightarrow> bool" where
  "rope_fits rope = (case rope of None \<Rightarrow> True | Some r \<Rightarrow> fits (root r) 0)"

lemma rope_to_string_fits:
  "rope_ok r \<Longrightarrow> rope_fits (Some r) \<Longrightarrow> rope_to_string (Some r) = Inr (node_bytes (root r))"
  using to_string_loop_fits [of "root r" "[]" "[]"] rope_ok_byte_len [of r]
  by (simp add: rope_to_string_def rope_fits_def stack_bytes_def)

lemma rope_split_bytes_past_end:
  "p \<noteq> 0 \<Longrightarrow> byte_len b \<le> p \<Longrightarrow> rope_split_bytes (Some b) p True = (Some b, Some rope_new)"
  by (simp add: rope_split_bytes_def)

lemma rope_split_bytes_right_len:
  assumes "rope_ok r" "rope_split_bytes (Some r) p True = (lft, rgt)"
  shows "\<exists>b. rgt = Some b \<and> byte_len b = byte_len r - p"
proof -
  from rope_split_bytes_ok [OF assms] obtain a b where
    ab: "rgt = Some b" "rope_ok b" "node_bytes (root b) = drop p (node_bytes (root r))" by blast
  then show ?thesis
    using rope_ok_byte_len [OF ab(2)] rope_ok_byte_len [OF assms(1)] by simp
qed

text \<open>The two splits and the concatenation of \<^verbatim>\<open>rope_delete_bytes\<close>, as a function of
  the length it has settled on.\<close>

definition delete_tail :: "rope \<Rightarrow> nat \<Rightarrow> nat \<Rightarrow> rope option" where
  "delete_tail r byte_start len =
    (case rope_split_bytes (Some r) byte_start True of
                     (rope1, rgt) \<Rightarrow>
                       if rgt \<noteq> None then
                         (case rope_split_bytes rgt len True of
                            (middle, rightmost) \<Rightarrow>
                              if rightmost \<noteq> None then rope_concat rope1 rightmost
                              else rope1)
                       else rope1)"

lemma delete_tail_past_end:
  assumes "rope_ok r" "len \<noteq> 0" "byte_len r - byte_start \<le> len"
  shows "delete_tail r byte_start len = rope_concat (fst (rope_split_bytes (Some r) byte_start True)) (Some rope_new)"
proof -
  obtain lft rgt where sp: "rope_split_bytes (Some r) byte_start True = (lft, rgt)" by fastforce
  from rope_split_bytes_right_len [OF assms(1) sp] obtain b where
    b: "rgt = Some b" "byte_len b = byte_len r - byte_start" by blast
  have "rope_split_bytes (Some b) len True = (Some b, Some rope_new)"
    using rope_split_bytes_past_end [of len b] assms(2,3) b(2) by simp
  then show ?thesis using sp b by (simp add: delete_tail_def)
qed

lemma rope_delete_bytes_alt:
  "rope_delete_bytes (Some r) byte_start len =
     (if byte_start \<ge> byte_len r then Some r
      else let len = (if (byte_start + len) mod 2 ^ 64 > byte_len r
                        then byte_len r - byte_start else len)
           in if len = 0 then Some r else delete_tail r byte_start len)"
  by (simp add: rope_delete_bytes_def delete_tail_def Let_def)

lemma delete_returns:
  assumes "rope_ok r" shows "\<exists>r'. rope_delete_bytes (Some r) byte_start len = Some r'"
proof -
  have "\<exists>r'. delete_tail r s l = Some r'" for s l
  proof -
    obtain lft rgt where sp: "rope_split_bytes (Some r) s True = (lft, rgt)" by fastforce
    from rope_split_bytes_ok [OF assms(1) sp] obtain a b where
      ab: "lft = Some a" "rgt = Some b" "rope_ok a" "rope_ok b" by blast
    obtain m rm where sp2: "rope_split_bytes (Some b) l True = (m, rm)" by fastforce
    from rope_split_bytes_ok [OF ab(4) sp2] obtain a' b' where
      ab': "m = Some a'" "rm = Some b'" "rope_ok a'" "rope_ok b'" by blast
    from rope_concat_ok [OF ab(3) ab'(4)] show ?thesis
      using sp ab sp2 ab' by (auto simp: delete_tail_def)
  qed
  then show ?thesis by (simp add: rope_delete_bytes_alt Let_def)
qed


text \<open>In the words of the specification: \<open>line_start cs k\<close> is the index immediately
  after the \<open>k\<close>-th newline of the characters \<open>cs\<close>, line 0 starting at index 0; with
  fewer than \<open>k\<close> newlines it is the number of characters.\<close>

fun line_start :: "codepoint list \<Rightarrow> nat \<Rightarrow> nat" where
  "line_start cs 0 = 0"
| "line_start [] (Suc k) = 0"
| "line_start (c # cs) (Suc k) =
     Suc (if c = 0x0A then line_start cs k else line_start cs (Suc k))"

definition newline_chars :: "codepoint list \<Rightarrow> nat" where
  "newline_chars cs = length (filter (\<lambda>c. c = 0x0A) cs)"

lemma line_start_Nil [simp]: "line_start [] k = 0"
  by (cases k) simp_all



lemma line_start_le: "line_start cs k \<le> length cs"
  by (induction cs k rule: line_start.induct) auto

lemma line_start_after_newline:
  "0 < k \<Longrightarrow> k \<le> newline_chars cs \<Longrightarrow>
   0 < line_start cs k \<and> cs ! (line_start cs k - 1) = 0x0A \<and>
   newline_chars (take (line_start cs k - 1) cs) = k - 1"
proof (induction cs k rule: line_start.induct)
  case (1 cs)
  then show ?case by simp
next
  case (2 k)
  then show ?case by (simp add: newline_chars_def)
next
  case (3 c cs k)
  show ?case
  proof (cases "c = 0x0A")
    case True
    show ?thesis
    proof (cases k)
      case 0
      then show ?thesis using True by (simp add: newline_chars_def)
    next
      case (Suc j)
      then show ?thesis using True 3 by (auto simp: newline_chars_def take_Cons' nth_Cons')
    qed
  next
    case False
    then show ?thesis using 3 by (auto simp: newline_chars_def take_Cons' nth_Cons')
  qed
qed

text \<open>A buffer ends on a character boundary when stepping from byte 0 by the lengths
  that the lead bytes announce, as the scans of the source do, arrives at its end with
  no sequence cut short.\<close>

function ends_on_boundary_loop :: "byte list \<Rightarrow> nat \<Rightarrow> bool" where
  "ends_on_boundary_loop str pos =
     (if pos < length str then
        (if utf8_char_len (str ! pos) > length str - pos then False
         else ends_on_boundary_loop str (pos + utf8_char_len (str ! pos)))
      else True)"
  by pat_completeness auto
termination
  by (relation "measure (\<lambda>(str, pos). length str - pos)") (auto simp: utf8_step_decreases)

declare ends_on_boundary_loop.simps [simp del]

definition ends_on_boundary :: "byte list \<Rightarrow> bool" where
  "ends_on_boundary str = ends_on_boundary_loop str 0"

text \<open>Every leaf of the tree ends on a character boundary.\<close>

fun leaves_aligned :: "rope_node \<Rightarrow> bool" where
  "leaves_aligned Null = True"
| "leaves_aligned (Leaf c bw cw nw d cl nl) = ends_on_boundary d"
| "leaves_aligned (Branch c bw cw nw l r) = (leaves_aligned l \<and> leaves_aligned r)"

lemma char_count_loop_step:
  "pos < length str \<Longrightarrow>
   utf8_char_count_loop str pos c =
     utf8_char_count_loop str
       (pos + (if utf8_char_len (str ! pos) > length str - pos then length str - pos
               else utf8_char_len (str ! pos))) (c + 1)"
  by (subst utf8_char_count_loop.simps) (simp add: Let_def)

lemma char_count_loop_done:
  "length str \<le> pos \<Longrightarrow> utf8_char_count_loop str pos c = c"
  by (subst utf8_char_count_loop.simps) simp

lemma ends_on_boundary_loop_step:
  "pos < length str \<Longrightarrow>
   ends_on_boundary_loop str pos =
     (utf8_char_len (str ! pos) \<le> length str - pos \<and>
      ends_on_boundary_loop str (pos + utf8_char_len (str ! pos)))"
  by (subst ends_on_boundary_loop.simps) auto

lemma ends_on_boundary_loop_done:
  "length str \<le> pos \<Longrightarrow> ends_on_boundary_loop str pos"
  by (subst ends_on_boundary_loop.simps) simp

lemma char_count_loop_acc:
  "utf8_char_count_loop str pos (c + d) = utf8_char_count_loop str pos c + d"
proof (induction str pos c arbitrary: d rule: utf8_char_count_loop.induct)
  case (1 str pos count)
  show ?case
  proof (cases "pos < length str")
    case False
    then show ?thesis by (simp add: char_count_loop_done)
  next
    case True
    show ?thesis
      using "1.IH" [OF True refl refl, of d] char_count_loop_step [OF True]
      by (simp add: add.commute add.left_commute)
  qed
qed

lemma char_count_loop_shift:
  "utf8_char_count_loop (xs @ ys) (length xs + pos) c = utf8_char_count_loop ys pos c"
proof (induction ys pos c rule: utf8_char_count_loop.induct)
  case (1 str pos count)
  show ?case
  proof (cases "pos < length str")
    case False
    then show ?thesis by (simp add: char_count_loop_done)
  next
    case True
    then have lt: "length xs + pos < length (xs @ str)" by simp
    define n where "n = (if utf8_char_len (str ! pos) > length str - pos then length str - pos
                         else utf8_char_len (str ! pos))"
    have "utf8_char_count_loop (xs @ str) (length xs + pos) count
          = utf8_char_count_loop (xs @ str) (length xs + (pos + n)) (count + 1)"
      using char_count_loop_step [OF lt, of count] by (simp add: nth_append n_def add.assoc)
    also have "\<dots> = utf8_char_count_loop str (pos + n) (count + 1)"
      using "1.IH" [OF True refl refl] by (simp only: n_def)
    also have "\<dots> = utf8_char_count_loop str pos count"
      using char_count_loop_step [OF True, of count] by (simp only: n_def)
    finally show ?thesis .
  qed
qed

lemma ends_on_boundary_loop_shift:
  "ends_on_boundary_loop (xs @ ys) (length xs + pos) = ends_on_boundary_loop ys pos"
proof (induction ys pos rule: ends_on_boundary_loop.induct)
  case (1 str pos)
  show ?case
  proof (cases "pos < length str")
    case False
    then show ?thesis by (simp add: ends_on_boundary_loop_done)
  next
    case True
    then have lt: "length xs + pos < length (xs @ str)" by simp
    show ?thesis
    proof (cases "utf8_char_len (str ! pos) > length str - pos")
      case True
      then show ?thesis
        using ends_on_boundary_loop_step [OF \<open>pos < length str\<close>]
          ends_on_boundary_loop_step [OF lt]
        by (simp add: nth_append)
    next
      case False
      then show ?thesis
        using "1.IH" [OF \<open>pos < length str\<close> False]
          ends_on_boundary_loop_step [OF \<open>pos < length str\<close>]
          ends_on_boundary_loop_step [OF lt]
        by (simp add: nth_append add.assoc)
    qed
  qed
qed

lemma char_count_loop_append:
  "ends_on_boundary_loop xs pos \<Longrightarrow> pos \<le> length xs \<Longrightarrow>
   utf8_char_count_loop (xs @ ys) pos c
     = utf8_char_count_loop ys 0 (utf8_char_count_loop xs pos c)"
proof (induction xs pos c rule: utf8_char_count_loop.induct)
  case (1 str pos count)
  show ?case
  proof (cases "pos < length str")
    case False
    then have "pos = length str" using "1.prems" by simp
    then show ?thesis
      using char_count_loop_shift [of str ys 0 count] by (simp add: char_count_loop_done)
  next
    case True
    then have lt: "pos < length (str @ ys)" by simp
    from ends_on_boundary_loop_step [OF True] "1.prems"(1)
    have fit: "utf8_char_len (str ! pos) \<le> length str - pos"
      and nxt: "ends_on_boundary_loop str (pos + utf8_char_len (str ! pos))" by simp_all
    have le: "pos + utf8_char_len (str ! pos) \<le> length str" using fit True by simp
    have fit': "\<not> length (str @ ys) - pos < utf8_char_len (str ! pos)"
      using fit by simp
    have nfit: "\<not> length str - pos < utf8_char_len (str ! pos)" using fit by simp
    have ih: "utf8_char_count_loop (str @ ys) (pos + utf8_char_len (str ! pos)) (count + 1)
          = utf8_char_count_loop ys 0
              (utf8_char_count_loop str (pos + utf8_char_len (str ! pos)) (count + 1))"
      using "1.IH" [OF True refl refl] nfit nxt le by simp
    have "utf8_char_count_loop (str @ ys) pos count
          = utf8_char_count_loop (str @ ys) (pos + utf8_char_len (str ! pos)) (count + 1)"
      using char_count_loop_step [OF lt, of count] fit' True by (simp add: nth_append)
    moreover have "utf8_char_count_loop str pos count
          = utf8_char_count_loop str (pos + utf8_char_len (str ! pos)) (count + 1)"
      using char_count_loop_step [OF True, of count] nfit by simp
    ultimately show ?thesis using ih by simp
  qed
qed

lemma ends_on_boundary_loop_append:
  "ends_on_boundary_loop xs pos \<Longrightarrow> pos \<le> length xs \<Longrightarrow>
   ends_on_boundary_loop (xs @ ys) pos = ends_on_boundary_loop ys 0"
proof (induction xs pos rule: ends_on_boundary_loop.induct)
  case (1 str pos)
  show ?case
  proof (cases "pos < length str")
    case False
    then have "pos = length str" using "1.prems" by simp
    then show ?thesis using ends_on_boundary_loop_shift [of str ys 0] by simp
  next
    case True
    then have lt: "pos < length (str @ ys)" by simp
    from ends_on_boundary_loop_step [OF True] "1.prems"(1)
    have fit: "utf8_char_len (str ! pos) \<le> length str - pos"
      and nxt: "ends_on_boundary_loop str (pos + utf8_char_len (str ! pos))" by simp_all
    have le: "pos + utf8_char_len (str ! pos) \<le> length str" using fit True by simp
    have "ends_on_boundary_loop (str @ ys) (pos + utf8_char_len (str ! pos))
          = ends_on_boundary_loop ys 0"
      using "1.IH" [OF True _ nxt le] fit by simp
    moreover have "utf8_char_len (str ! pos) \<le> length (str @ ys) - pos" using fit by simp
    ultimately show ?thesis
      using ends_on_boundary_loop_step [OF lt] True by (simp add: nth_append)
  qed
qed

lemma utf8_char_count_append:
  "ends_on_boundary xs \<Longrightarrow> utf8_char_count (xs @ ys) = utf8_char_count xs + utf8_char_count ys"
  using char_count_loop_append [of xs 0 ys 0]
    char_count_loop_acc [of ys 0 0 "utf8_char_count_loop xs 0 0"]
  by (simp add: utf8_char_count_def ends_on_boundary_def)

lemma ends_on_boundary_append:
  "ends_on_boundary xs \<Longrightarrow> ends_on_boundary ys \<Longrightarrow> ends_on_boundary (xs @ ys)"
  using ends_on_boundary_loop_append [of xs 0 ys] by (simp add: ends_on_boundary_def)

lemma leaves_aligned_bytes:
  "leaves_aligned n \<Longrightarrow> ends_on_boundary (node_bytes n)"
proof (induction n)
  case Null
  then show ?case by (simp add: ends_on_boundary_def ends_on_boundary_loop_done)
qed (simp_all add: ends_on_boundary_append)

lemma tree_ok_char_len:
  "tree_ok n \<Longrightarrow> leaves_aligned n \<Longrightarrow> node_char_len n = utf8_char_count (node_bytes n)"
  by (induction n) (auto simp: utf8_char_count_append leaves_aligned_bytes)


lemma utf8_char_count_Nil [simp]: "utf8_char_count [] = 0"
  by (simp add: utf8_char_count_def char_count_loop_done)

lemma rope_stats_new_from_str:
  "rope_stats (Some (rope_new_from_str s))
   = \<lparr>bytes = length s, chars = utf8_char_count s, stat_newlines = count_newlines s\<rparr>"
  by (cases s) (simp_all add: rope_stats_def rope_new_from_str_def node_new_leaf_def rope_new_def)

lemma rope_ok_newlines: "rope_ok r \<Longrightarrow> newlines r = count_newlines (node_bytes (root r))"
  by (auto simp: rope_ok_def tree_ok_newline_count split: if_splits)

lemma char_to_byte_loop_step:
  "bp < length str \<Longrightarrow> cur < k \<Longrightarrow>
   utf8_char_to_byte_loop str k bp cur =
     (if utf8_char_len (str ! bp) > length str - bp then bp
      else utf8_char_to_byte_loop str k (bp + utf8_char_len (str ! bp)) (cur + 1))"
  by (subst utf8_char_to_byte_loop.simps) (simp add: Let_def)

lemma char_to_byte_loop_done:
  "length str \<le> bp \<or> k \<le> cur \<Longrightarrow> utf8_char_to_byte_loop str k bp cur = bp"
  by (subst utf8_char_to_byte_loop.simps) auto

lemma char_to_byte_loop_shift:
  "utf8_char_to_byte_loop (xs @ ys) k (length xs + bp) cur
     = length xs + utf8_char_to_byte_loop ys k bp cur"
proof (induction ys k bp cur rule: utf8_char_to_byte_loop.induct)
  case (1 str k bp cur)
  show ?case
  proof (cases "bp < length str \<and> cur < k")
    case False
    then show ?thesis by (auto simp: char_to_byte_loop_done)
  next
    case True
    then have lt: "length xs + bp < length (xs @ str)" and ck: "cur < k" and b: "bp < length str"
      by simp_all
    show ?thesis
    proof (cases "utf8_char_len (str ! bp) > length str - bp")
      case True
      then show ?thesis
        using char_to_byte_loop_step [OF lt ck] char_to_byte_loop_step [OF b ck]
        by (simp add: nth_append)
    next
      case False
      then show ?thesis
        using "1.IH" [OF \<open>bp < length str \<and> cur < k\<close> refl False]
          char_to_byte_loop_step [OF lt ck] char_to_byte_loop_step [OF b ck]
        by (simp add: nth_append add.assoc)
    qed
  qed
qed

lemma char_to_byte_loop_norm:
  "utf8_char_to_byte_loop str (k + d) bp (cur + d) = utf8_char_to_byte_loop str k bp cur"
proof (induction str k bp cur rule: utf8_char_to_byte_loop.induct)
  case (1 str k bp cur)
  show ?case
  proof (cases "bp < length str \<and> cur < k")
    case False
    then show ?thesis by (auto simp: char_to_byte_loop_done)
  next
    case True
    then have ck: "cur < k" and b: "bp < length str" and ck': "cur + d < k + d" by simp_all
    show ?thesis
    proof (cases "utf8_char_len (str ! bp) > length str - bp")
      case True
      then show ?thesis
        using char_to_byte_loop_step [OF b ck'] char_to_byte_loop_step [OF b ck] by simp
    next
      case False
      then show ?thesis
        using "1.IH" [OF \<open>bp < length str \<and> cur < k\<close> refl False]
          char_to_byte_loop_step [OF b ck'] char_to_byte_loop_step [OF b ck]
        by (simp add: add.assoc add.commute add.left_commute)
    qed
  qed
qed

lemma char_count_loop_pos:
  "pos < length str \<Longrightarrow> 0 < utf8_char_count_loop str pos 0"
  using char_count_loop_step [of pos str 0]
    char_count_loop_acc [of str _ 0 1] by (simp add: Let_def split: if_splits)

lemma char_count_loop_fit_step:
  "pos < length str \<Longrightarrow> utf8_char_len (str ! pos) \<le> length str - pos \<Longrightarrow>
   utf8_char_count_loop str pos 0
     = Suc (utf8_char_count_loop str (pos + utf8_char_len (str ! pos)) 0)"
  using char_count_loop_step [of pos str 0]
    char_count_loop_acc [of str "pos + utf8_char_len (str ! pos)" 0 1] by simp

lemma char_to_byte_loop_append:
  "ends_on_boundary_loop xs bp \<Longrightarrow> bp \<le> length xs \<Longrightarrow> cur \<le> k \<Longrightarrow>
   utf8_char_to_byte_loop (xs @ ys) k bp cur =
     (if k < cur + utf8_char_count_loop xs bp 0 then utf8_char_to_byte_loop xs k bp cur
      else length xs + utf8_char_to_byte_loop ys (k - (cur + utf8_char_count_loop xs bp 0)) 0 0)"
proof (induction xs k bp cur rule: utf8_char_to_byte_loop.induct)
  case (1 str k bp cur)
  show ?case
  proof (cases "bp < length str")
    case False
    then have bp: "bp = length str" using "1.prems" by simp
    have "utf8_char_to_byte_loop ys k 0 cur = utf8_char_to_byte_loop ys (k - cur) 0 0"
      using char_to_byte_loop_norm [of ys "k - cur" cur 0 0] "1.prems"(3) by simp
    then show ?thesis
      using bp char_to_byte_loop_shift [of str ys k 0 cur] "1.prems"(3)
      by (simp add: char_count_loop_done)
  next
    case b: True
    then have lt: "bp < length (str @ ys)" by simp
    from ends_on_boundary_loop_step [OF b] "1.prems"(1)
    have fit: "utf8_char_len (str ! bp) \<le> length str - bp"
      and nxt: "ends_on_boundary_loop str (bp + utf8_char_len (str ! bp))" by simp_all
    have le: "bp + utf8_char_len (str ! bp) \<le> length str" using fit b by simp
    have cnt: "utf8_char_count_loop str bp 0
               = Suc (utf8_char_count_loop str (bp + utf8_char_len (str ! bp)) 0)"
      using char_count_loop_fit_step [OF b fit] .
    show ?thesis
    proof (cases "cur < k")
      case False
      then show ?thesis using cnt "1.prems"(3) by (simp add: char_to_byte_loop_done)
    next
      case ck: True
      have nfit: "\<not> length str - bp < utf8_char_len (str ! bp)" using fit by simp
      have nfit': "\<not> length (str @ ys) - bp < utf8_char_len ((str @ ys) ! bp)"
        using fit b by (simp add: nth_append)
      have ih: "utf8_char_to_byte_loop (str @ ys) k (bp + utf8_char_len (str ! bp)) (cur + 1) =
         (if k < cur + 1 + utf8_char_count_loop str (bp + utf8_char_len (str ! bp)) 0
          then utf8_char_to_byte_loop str k (bp + utf8_char_len (str ! bp)) (cur + 1)
          else length str + utf8_char_to_byte_loop ys
                 (k - (cur + 1 + utf8_char_count_loop str (bp + utf8_char_len (str ! bp)) 0)) 0 0)"
        using "1.IH" [OF conjI [OF b ck] refl nfit nxt le] ck by simp
      have l: "utf8_char_to_byte_loop (str @ ys) k bp cur
               = utf8_char_to_byte_loop (str @ ys) k (bp + utf8_char_len (str ! bp)) (cur + 1)"
        using char_to_byte_loop_step [OF lt ck] nfit' b by (simp add: nth_append)
      have r: "utf8_char_to_byte_loop str k bp cur
               = utf8_char_to_byte_loop str k (bp + utf8_char_len (str ! bp)) (cur + 1)"
        using char_to_byte_loop_step [OF b ck] nfit by simp
      show ?thesis using ih l r cnt by simp
    qed
  qed
qed

lemma char_to_byte_loop_inside:
  "ends_on_boundary_loop xs bp \<Longrightarrow> bp \<le> length xs \<Longrightarrow> cur \<le> k \<Longrightarrow>
   k < cur + utf8_char_count_loop xs bp 0 \<Longrightarrow>
   utf8_char_to_byte_loop xs k bp cur < length xs \<and>
   utf8_char_len (xs ! utf8_char_to_byte_loop xs k bp cur)
     \<le> length xs - utf8_char_to_byte_loop xs k bp cur"
proof (induction xs k bp cur rule: utf8_char_to_byte_loop.induct)
  case (1 str k bp cur)
  have b: "bp < length str"
  proof (rule ccontr)
    assume "\<not> bp < length str"
    then show False using "1.prems" by (simp add: char_count_loop_done)
  qed
  from ends_on_boundary_loop_step [OF b] "1.prems"(1)
  have fit: "utf8_char_len (str ! bp) \<le> length str - bp"
    and nxt: "ends_on_boundary_loop str (bp + utf8_char_len (str ! bp))" by simp_all
  have le: "bp + utf8_char_len (str ! bp) \<le> length str" using fit b by simp
  have cnt: "utf8_char_count_loop str bp 0
             = Suc (utf8_char_count_loop str (bp + utf8_char_len (str ! bp)) 0)"
    using char_count_loop_fit_step [OF b fit] .
  show ?case
  proof (cases "cur < k")
    case False
    then show ?thesis using b fit by (simp add: char_to_byte_loop_done)
  next
    case ck: True
    have nfit: "\<not> length str - bp < utf8_char_len (str ! bp)" using fit by simp
    have r: "utf8_char_to_byte_loop str k bp cur
               = utf8_char_to_byte_loop str k (bp + utf8_char_len (str ! bp)) (cur + 1)"
      using char_to_byte_loop_step [OF b ck] nfit by simp
    show ?thesis
      using "1.IH" [OF conjI [OF b ck] refl nfit nxt le] ck "1.prems"(4) cnt r by simp
  qed
qed

lemma utf8_char_to_byte_append:
  "ends_on_boundary xs \<Longrightarrow>
   utf8_char_to_byte (xs @ ys) k =
     (if k < utf8_char_count xs then utf8_char_to_byte xs k
      else length xs + utf8_char_to_byte ys (k - utf8_char_count xs))"
  using char_to_byte_loop_append [of xs 0 0 k ys]
  by (simp add: utf8_char_to_byte_def utf8_char_count_def ends_on_boundary_def)

lemma utf8_char_to_byte_inside:
  "ends_on_boundary xs \<Longrightarrow> k < utf8_char_count xs \<Longrightarrow>
   utf8_char_to_byte xs k < length xs \<and>
   utf8_char_len (xs ! utf8_char_to_byte xs k) \<le> length xs - utf8_char_to_byte xs k"
  using char_to_byte_loop_inside [of xs 0 0 k]
  by (simp add: utf8_char_to_byte_def utf8_char_count_def ends_on_boundary_def)

lemma utf8_decode_local:
  "b < length xs \<Longrightarrow> utf8_char_len (xs ! b) \<le> length xs - b \<Longrightarrow>
   utf8_decode (drop b xs @ ys) = utf8_decode (drop b xs)"
  using utf8_char_len_le4 [of "xs ! b"] utf8_char_len_pos [of "xs ! b"]
  by (auto simp: utf8_decode_def Let_def nth_append)


text \<open>What the decoder of the source reads in a flat buffer at the byte offset that
  \<^verbatim>\<open>utf8_char_to_byte\<close> of the source gives for character \<open>p\<close>: the tree walks of
  \<^verbatim>\<open>rope_char_at\<close> are compared with it.\<close>

definition decoded_at :: "byte list \<Rightarrow> nat \<Rightarrow> codepoint" where
  "decoded_at content p = fst (utf8_decode (drop (utf8_char_to_byte content p) content))"

lemma char_walks:
  "tree_ok n \<Longrightarrow> leaves_aligned n \<Longrightarrow> k < node_char_len n \<Longrightarrow>
   char_to_byte_walk n k off = off + utf8_char_to_byte (node_bytes n) k \<and>
   char_at_walk n (utf8_char_to_byte (node_bytes n) k) = decoded_at (node_bytes n) k"
proof (induction n arbitrary: k off)
  case Null
  then show ?case by simp
next
  case (Leaf c bw cw nw d cl nl)
  then have "ends_on_boundary d" "k < utf8_char_count d" by simp_all
  from utf8_char_to_byte_inside [OF this] show ?case by (simp add: decoded_at_def)
next
  case (Branch c bw cw nw l r)
  let ?L = "node_bytes l" and ?R = "node_bytes r"
  from Branch.prems have ok: "tree_ok l" "tree_ok r" and al: "leaves_aligned l" "leaves_aligned r"
    and bw: "bw = length ?L" and cw: "cw = utf8_char_count ?L"
    and cr: "node_char_len r = utf8_char_count ?R"
    by (simp_all add: tree_ok_byte_len tree_ok_char_len)
  have aL: "ends_on_boundary ?L" using al(1) by (rule leaves_aligned_bytes)
  show ?case
  proof (cases "k < cw")
    case True
    then have kl: "k < node_char_len l" using Branch.prems by simp
    from Branch.IH(1) [OF ok(1) al(1) kl, of off]
    have ih: "char_to_byte_walk l k off = off + utf8_char_to_byte ?L k"
      "char_at_walk l (utf8_char_to_byte ?L k) = decoded_at ?L k" by simp_all
    have flat: "utf8_char_to_byte (?L @ ?R) k = utf8_char_to_byte ?L k"
      using utf8_char_to_byte_append [OF aL, of ?R k] True cw by simp
    from utf8_char_to_byte_inside [OF aL, of k] True cw
    have ins: "utf8_char_to_byte ?L k < length ?L"
      "utf8_char_len (?L ! utf8_char_to_byte ?L k) \<le> length ?L - utf8_char_to_byte ?L k"
      by simp_all
    have "decoded_at (?L @ ?R) k = decoded_at ?L k"
      using utf8_decode_local [OF ins, of ?R] ins(1) flat by (simp add: decoded_at_def)
    then show ?thesis using True ih flat ins(1) bw by simp
  next
    case False
    then have kr: "k - cw < node_char_len r" using Branch.prems by simp
    from Branch.IH(2) [OF ok(2) al(2) kr, of "off + bw"]
    have ih: "char_to_byte_walk r (k - cw) (off + bw) = off + bw + utf8_char_to_byte ?R (k - cw)"
      "char_at_walk r (utf8_char_to_byte ?R (k - cw)) = decoded_at ?R (k - cw)" by simp_all
    have flat: "utf8_char_to_byte (?L @ ?R) k = length ?L + utf8_char_to_byte ?R (k - cw)"
      using utf8_char_to_byte_append [OF aL, of ?R k] False cw by simp
    have "decoded_at (?L @ ?R) k = decoded_at ?R (k - cw)"
      using flat by (simp add: decoded_at_def)
    then show ?thesis using False ih flat bw by simp
  qed
qed

text \<open>Every public operation keeps \<open>rope_ok\<close>: construction, insertion and deletion
  below, split and concatenation above. Insertion and deletion are stated with the
  content of their result.\<close>

lemma node_set_color_props [simp]:
  "tree_ok (node_set_color n c) = tree_ok n"
  "node_bytes (node_set_color n c) = node_bytes n"
  "node_byte_len (node_set_color n c) = node_byte_len n"
  "node_char_len (node_set_color n c) = node_char_len n"
  "node_newline_count (node_set_color n c) = node_newline_count n"
  by (cases n; simp)+

lemma node_update_weights_props [simp]:
  "tree_ok l \<Longrightarrow> tree_ok r \<Longrightarrow> tree_ok (node_update_weights (Branch c bw cw nw l r))"
  "node_bytes (node_update_weights n) = node_bytes n"
  "is_Branch (node_update_weights n) = is_Branch n"
  by (cases n; auto)+

lemma rotate_left_props:
  "tree_ok n \<Longrightarrow> tree_ok (rotate_left n)"
  "node_bytes (rotate_left n) = node_bytes n"
  "is_Branch (rotate_left n) = is_Branch n"
  by (induction n rule: rotate_left.induct; simp)+

lemma rotate_right_props:
  "tree_ok n \<Longrightarrow> tree_ok (rotate_right n)"
  "node_bytes (rotate_right n) = node_bytes n"
  "is_Branch (rotate_right n) = is_Branch n"
  by (induction n rule: rotate_right.induct; simp)+

lemma flip_colors_props:
  "is_Branch n \<Longrightarrow> tree_ok (flip_colors n) = tree_ok n"
  "is_Branch n \<Longrightarrow> node_bytes (flip_colors n) = node_bytes n"
  by (cases n; simp)+

lemma balance_props:
  "tree_ok n \<Longrightarrow> tree_ok (balance n)"
  "node_bytes (balance n) = node_bytes n"
proof -
  show "tree_ok n \<Longrightarrow> tree_ok (balance n)"
    by (cases n) (simp_all add: Let_def rotate_left_props rotate_right_props flip_colors_props)
  show "node_bytes (balance n) = node_bytes n"
    by (cases n) (simp_all add: Let_def rotate_left_props rotate_right_props flip_colors_props)
qed


lemma node_insert_bytes_ok:
  "tree_ok n \<Longrightarrow> str \<noteq> [] \<Longrightarrow>
   tree_ok (node_insert_bytes n p str) \<and>
   node_bytes (node_insert_bytes n p str) = take p (node_bytes n) @ str @ drop p (node_bytes n)"
proof (induction n arbitrary: p)
  case Null
  then show ?case by simp
next
  case (Leaf c bw cw nw d cl nl)
  then show ?case by (simp add: balance_props Let_def del: balance.simps)
next
  case (Branch c bw cw nw l r)
  from Branch.prems have ok: "tree_ok l" "tree_ok r" and bw: "bw = length (node_bytes l)"
    by (simp_all add: tree_ok_byte_len)
  show ?case
  proof (cases "p \<le> bw")
    case True
    from Branch.IH(1) [OF ok(1) Branch.prems(2), of p]
    have ih: "tree_ok (node_insert_bytes l p str)"
      "node_bytes (node_insert_bytes l p str)
        = take p (node_bytes l) @ str @ drop p (node_bytes l)" by simp_all
    show ?thesis using True ih ok bw by (simp add: balance_props del: balance.simps)
  next
    case False
    from Branch.IH(2) [OF ok(2) Branch.prems(2), of "p - bw"]
    have ih: "tree_ok (node_insert_bytes r (p - bw) str)"
      "node_bytes (node_insert_bytes r (p - bw) str)
        = take (p - bw) (node_bytes r) @ str @ drop (p - bw) (node_bytes r)" by simp_all
    show ?thesis using False ih ok bw by (simp add: balance_props del: balance.simps)
  qed
qed

lemma rope_new_from_str_ok:
  "rope_ok (rope_new_from_str str) \<and> node_bytes (root (rope_new_from_str str)) = str"
  by (cases str) (simp_all add: rope_new_from_str_def rope_ok_def node_new_leaf_def)

lemma count_newlines_take_drop:
  "count_newlines (take p xs) + count_newlines (drop p xs) = count_newlines xs"
  using count_newlines_append [of "take p xs" "drop p xs"] by simp

lemma rope_insert_bytes_ok:
  assumes "rope_ok r"
  shows "\<exists>r'. rope_insert_bytes (Some r) p str = Some r' \<and> rope_ok r' \<and>
           node_bytes (root r')
             = take p (node_bytes (root r)) @ str @ drop p (node_bytes (root r))"
proof (cases "str = []")
  case True
  then show ?thesis using assms by (simp add: rope_insert_bytes_def)
next
  case str: False
  show ?thesis
  proof (cases "root r = Null")
    case True
    then show ?thesis using str assms
      by (simp add: rope_insert_bytes_def rope_ok_def Let_def node_new_leaf_def)
  next
    case False
    then have ok: "tree_ok (root r)" and bl: "byte_len r = length (node_bytes (root r))"
      and nl: "newlines r = count_newlines (node_bytes (root r))"
      using assms rope_ok_byte_len [OF assms] rope_ok_newlines [OF assms]
      by (simp_all add: rope_ok_def)
    let ?p = "if p > byte_len r then byte_len r else p"
    let ?t = "node_insert_bytes (root r) ?p str"
    from node_insert_bytes_ok [OF ok str, of ?p]
    have t: "tree_ok ?t"
      "node_bytes ?t = take ?p (node_bytes (root r)) @ str @ drop ?p (node_bytes (root r))"
      by simp_all
    have t': "node_bytes ?t = take p (node_bytes (root r)) @ str @ drop p (node_bytes (root r))"
      using t(2) bl by (simp split: if_splits)
    have "rope_ok \<lparr>root = assign_color ?t RB_BLACK, byte_len = byte_len r + length str,
                    char_len = char_len r + utf8_char_count str,
                    newlines = newlines r + count_newlines str\<rparr>"
      using t(1) t' bl nl count_newlines_take_drop [of p "node_bytes (root r)"]
      by (simp add: rope_ok_def tree_ok_byte_len tree_ok_newline_count count_newlines_append)
    then show ?thesis using False str t(1) t'
      by (simp add: rope_insert_bytes_def Let_def)
  qed
qed

lemma delete_tail_ok:
  assumes "rope_ok r"
  shows "\<exists>r'. delete_tail r s l = Some r' \<and> rope_ok r' \<and>
           node_bytes (root r') = take s (node_bytes (root r)) @ drop (s + l) (node_bytes (root r))"
proof -
  obtain lft rgt where sp: "rope_split_bytes (Some r) s True = (lft, rgt)" by fastforce
  from rope_split_bytes_ok [OF assms(1) sp] obtain a b where
    ab: "lft = Some a" "rgt = Some b" "rope_ok a" "rope_ok b"
    "node_bytes (root a) = take s (node_bytes (root r))"
    "node_bytes (root b) = drop s (node_bytes (root r))" by blast
  obtain m rm where sp2: "rope_split_bytes (Some b) l True = (m, rm)" by fastforce
  from rope_split_bytes_ok [OF ab(4) sp2] obtain a' b' where
    ab': "m = Some a'" "rm = Some b'" "rope_ok b'"
    "node_bytes (root b') = drop l (node_bytes (root b))" by blast
  from rope_concat_ok [OF ab(3) ab'(3)] show ?thesis
    using sp ab sp2 ab' by (auto simp: delete_tail_def add.commute)
qed

lemma rope_delete_bytes_ok:
  assumes "rope_ok r"
  shows "\<exists>r'. rope_delete_bytes (Some r) s l = Some r' \<and> rope_ok r' \<and>
           node_bytes (root r') = take s (node_bytes (root r)) @ drop (s + l) (node_bytes (root r))"
proof -
  have bl: "byte_len r = length (node_bytes (root r))" using rope_ok_byte_len [OF assms] .
  show ?thesis
  proof (cases "s \<ge> byte_len r")
    case True
    then show ?thesis using assms bl by (simp add: rope_delete_bytes_alt)
  next
    case inside: False
    show ?thesis
    proof (cases "(s + l) mod 2 ^ 64 > byte_len r")
      case True
      have "(s + l) mod 2 ^ 64 \<le> s + l" by simp
      then have over: "byte_len r < s + l" using True by linarith
      from delete_tail_ok [OF assms, of s "byte_len r - s"] over inside bl True
      show ?thesis by (auto simp: rope_delete_bytes_alt Let_def)
    next
      case False
      show ?thesis
      proof (cases "l = 0")
        case True
        then show ?thesis using assms inside False by (simp add: rope_delete_bytes_alt)
      next
        case l: False
        from delete_tail_ok [OF assms, of s l] inside False l
        show ?thesis by (simp add: rope_delete_bytes_alt Let_def)
      qed
    qed
  qed
qed

text \<open>Split and concatenation at the level of the trees, and of \<^verbatim>\<open>rope_to_string\<close>
  within its 64 stack entries.\<close>

lemma split_concat_node_bytes:
  assumes "rope_ok r"
  shows "\<exists>c. rope_concat (fst (rope_split_bytes (Some r) p True))
                           (snd (rope_split_bytes (Some r) p True)) = Some c \<and>
             rope_ok c \<and> node_bytes (root c) = node_bytes (root r)"
proof -
  obtain lft rgt where sp: "rope_split_bytes (Some r) p True = (lft, rgt)" by fastforce
  from rope_split_bytes_ok [OF assms(1) sp] obtain a b where
    ab: "lft = Some a" "rgt = Some b" "rope_ok a" "rope_ok b"
    "node_bytes (root a) = take p (node_bytes (root r))"
    "node_bytes (root b) = drop p (node_bytes (root r))" by blast
  from rope_concat_ok [OF ab(3,4)] show ?thesis using sp ab by auto
qed

lemma split_concat_to_string:
  assumes "rope_ok r" and "rope_fits (Some r)"
    and "rope_fits (rope_concat (fst (rope_split_bytes (Some r) p True))
                                (snd (rope_split_bytes (Some r) p True)))"
  shows "rope_to_string (rope_concat (fst (rope_split_bytes (Some r) p True))
                                     (snd (rope_split_bytes (Some r) p True)))
           = Inr (node_bytes (root r)) \<and>
         rope_to_string (Some r) = Inr (node_bytes (root r))"
proof -
  from split_concat_node_bytes [OF assms(1), of p] obtain c where
    c: "rope_concat (fst (rope_split_bytes (Some r) p True))
                    (snd (rope_split_bytes (Some r) p True)) = Some c"
    "rope_ok c" "node_bytes (root c) = node_bytes (root r)" by blast
  have "rope_to_string (Some c) = Inr (node_bytes (root c))"
    using rope_to_string_fits [OF c(2)] assms(3) c(1) by simp
  then show ?thesis using c rope_to_string_fits [OF assms(1,2)] by simp
qed

subsection \<open>The codec of the specification\<close>

text \<open>These definitions follow the words of the specification (sections 3 and 4.1), not
  the source. The high bits of a lead byte determine the length of its sequence,
  \<^verbatim>\<open>0xxxxxxx\<close> 1, \<^verbatim>\<open>110xxxxx\<close> 2, \<^verbatim>\<open>1110xxxx\<close> 3, \<^verbatim>\<open>11110xxx\<close> 4; any other
  pattern is invalid.\<close>

definition lead_length :: "byte \<Rightarrow> nat option" where
  "lead_length b =
     (if b AND 0x80 = 0 then Some 1
      else if b AND 0xE0 = 0xC0 then Some 2
      else if b AND 0xF0 = 0xE0 then Some 3
      else if b AND 0xF8 = 0xF0 then Some 4
      else None)"

text \<open>Continuation bytes match \<^verbatim>\<open>10xxxxxx\<close>.\<close>

definition is_continuation :: "byte \<Rightarrow> bool" where
  "is_continuation b = (b AND 0xC0 = 0x80)"

text \<open>A buffer starts with a well-formed sequence: a valid lead byte, as many bytes as
  it announces, all but the first of them continuation bytes.\<close>

definition well_formed_seq :: "byte list \<Rightarrow> bool" where
  "well_formed_seq bs =
     (case bs of
        [] \<Rightarrow> False
      | b # rest \<Rightarrow>
          (case lead_length b of
             None \<Rightarrow> False
           | Some n \<Rightarrow> n \<le> length bs \<and> list_all is_continuation (take (n - 1) rest)))"

text \<open>The payload bits of a lead byte of a sequence of \<open>n\<close> bytes.\<close>

definition lead_payload :: "nat \<Rightarrow> byte \<Rightarrow> codepoint" where
  "lead_payload n b =
     (if n = 1 then ucast b
      else if n = 2 then ucast (b AND 0x1F)
      else if n = 3 then ucast (b AND 0x0F)
      else ucast (b AND 0x07))"

text \<open>Decoding returns the scalar and the number of bytes consumed: the payload of the
  lead byte followed by six bits of each continuation byte for a well-formed sequence,
  \<^verbatim>\<open>(U+FFFD, 1)\<close> for an invalid or incomplete one.\<close>

definition spec_decode :: "byte list \<Rightarrow> codepoint \<times> nat" where
  "spec_decode bs =
     (case bs of
        [] \<Rightarrow> (0, 0)
      | b # rest \<Rightarrow>
          if well_formed_seq bs then
            (let n = the (lead_length b)
             in (foldl (\<lambda>acc c. push_bit 6 acc OR ucast (c AND 0x3F)) (lead_payload n b)
                   (take (n - 1) rest), n))
          else (0xFFFD, 1))"

lemma spec_decode_consumes: "bs \<noteq> [] \<Longrightarrow> 0 < snd (spec_decode bs)"
  by (cases bs)
     (auto simp: spec_decode_def well_formed_seq_def lead_length_def Let_def split: if_splits)

text \<open>The Unicode scalar values of a byte sequence, character after character.\<close>

function spec_chars :: "byte list \<Rightarrow> codepoint list" where
  "spec_chars bs =
     (if bs = [] then []
      else fst (spec_decode bs) # spec_chars (drop (snd (spec_decode bs)) bs))"
  by pat_completeness auto
termination
  by (relation "measure length") (auto simp: spec_decode_consumes)

declare spec_chars.simps [simp del]

text \<open>Well-formed UTF-8: every sequence of the buffer is well-formed.\<close>

function valid_utf8 :: "byte list \<Rightarrow> bool" where
  "valid_utf8 bs =
     (if bs = [] then True
      else if well_formed_seq bs then valid_utf8 (drop (snd (spec_decode bs)) bs)
      else False)"
  by pat_completeness auto
termination
  by (relation "measure length") (auto simp: spec_decode_consumes)

declare valid_utf8.simps [simp del]

text \<open>On well-formed input the source's scans and decoder agree with the codec of the
  specification.\<close>

lemma lead_length_char_len: "lead_length b = Some n \<Longrightarrow> utf8_char_len b = n"
  by (auto simp: lead_length_def utf8_char_len_def split: if_splits)

lemma well_formed_seq_decode:
  assumes "well_formed_seq bs"
  shows "bs \<noteq> []" "utf8_char_len (bs ! 0) \<le> length bs"
    "snd (spec_decode bs) = utf8_char_len (bs ! 0)"
    "fst (spec_decode bs) = fst (utf8_decode bs)"
proof -
  from assms obtain b rest n where bs: "bs = b # rest" and n: "lead_length b = Some n"
    and le: "n \<le> length bs"
    by (auto simp: well_formed_seq_def split: list.splits option.splits)
  have cl: "utf8_char_len b = n" using n by (rule lead_length_char_len)
  show "bs \<noteq> []" using bs by simp
  show "utf8_char_len (bs ! 0) \<le> length bs" using bs cl le by simp
  show "snd (spec_decode bs) = utf8_char_len (bs ! 0)"
    using assms bs n cl by (simp add: spec_decode_def)
  have n14: "n = 1 \<or> n = 2 \<or> n = 3 \<or> n = 4"
    using n by (auto simp: lead_length_def split: if_splits)
  show "fst (spec_decode bs) = fst (utf8_decode bs)"
    using n14
  proof (elim disjE)
    assume "n = 1"
    then show ?thesis using assms bs n cl
      by (simp add: spec_decode_def utf8_decode_def lead_payload_def)
  next
    assume n2: "n = 2"
    then obtain c1 r1 where "rest = c1 # r1" using le bs by (cases rest) auto
    then show ?thesis using assms bs n cl n2
      by (simp add: spec_decode_def utf8_decode_def lead_payload_def)
  next
    assume n3: "n = 3"
    then obtain c1 c2 r2 where "rest = c1 # c2 # r2" using le bs
      by (cases rest; cases "tl rest") auto
    then show ?thesis using assms bs n cl n3
      by (simp add: spec_decode_def utf8_decode_def lead_payload_def push_bit_or
          or.assoc numeral_3_eq_3)
  next
    assume n4: "n = 4"
    then obtain c1 c2 c3 r3 where "rest = c1 # c2 # c3 # r3" using le bs
      by (cases rest; cases "tl rest"; cases "tl (tl rest)") auto
    then show ?thesis using assms bs n cl n4
      by (simp add: spec_decode_def utf8_decode_def lead_payload_def push_bit_or
          or.assoc numeral_3_eq_3)
  qed
qed


lemma first_seq_aligned:
  assumes "bs \<noteq> []" and "utf8_char_len (bs ! 0) \<le> length bs"
  shows "ends_on_boundary (take (utf8_char_len (bs ! 0)) bs)"
    and "utf8_char_count (take (utf8_char_len (bs ! 0)) bs) = 1"
proof -
  let ?n = "utf8_char_len (bs ! 0)" and ?xs = "take (utf8_char_len (bs ! 0)) bs"
  have len: "length ?xs = ?n" using assms(2) by simp
  have pos: "0 < length ?xs" using len utf8_char_len_pos [of "bs ! 0"] by simp
  have hd: "?xs ! 0 = bs ! 0" using pos by simp
  show "ends_on_boundary ?xs"
    using ends_on_boundary_loop_step [OF pos] hd len
    by (simp add: ends_on_boundary_def ends_on_boundary_loop_done)
  show "utf8_char_count ?xs = 1"
    using char_count_loop_step [OF pos, of 0] hd len
    by (simp add: utf8_char_count_def char_count_loop_done)
qed

lemma valid_utf8_step:
  "bs \<noteq> [] \<Longrightarrow> valid_utf8 bs \<Longrightarrow>
   well_formed_seq bs \<and> valid_utf8 (drop (utf8_char_len (bs ! 0)) bs)"
  by (subst (asm) valid_utf8.simps) (auto simp: well_formed_seq_decode split: if_splits)

lemma spec_chars_step:
  "well_formed_seq bs \<Longrightarrow>
   spec_chars bs = fst (utf8_decode bs) # spec_chars (drop (utf8_char_len (bs ! 0)) bs)"
  by (subst spec_chars.simps) (simp add: well_formed_seq_decode)

lemma utf8_char_to_byte_0 [simp]: "utf8_char_to_byte bs 0 = 0"
  by (simp add: utf8_char_to_byte_def char_to_byte_loop_done)

lemma valid_utf8_chars:
  "valid_utf8 bs \<Longrightarrow>
   utf8_char_count bs = length (spec_chars bs) \<and>
   (p < utf8_char_count bs \<longrightarrow> decoded_at bs p = spec_chars bs ! p)"
proof (induction bs arbitrary: p rule: valid_utf8.induct)
  case (1 bs)
  show ?case
  proof (cases "bs = []")
    case True
    then show ?thesis by (simp add: spec_chars.simps)
  next
    case False
    let ?n = "utf8_char_len (bs ! 0)"
    let ?xs = "take ?n bs" and ?ys = "drop ?n bs"
    from valid_utf8_step [OF False "1.prems"]
    have wf: "well_formed_seq bs" and vr: "valid_utf8 ?ys" by simp_all
    have fit: "?n \<le> length bs" using wf by (rule well_formed_seq_decode)
    have sn: "snd (spec_decode bs) = ?n" using wf by (rule well_formed_seq_decode)
    from first_seq_aligned [OF False fit]
    have al: "ends_on_boundary ?xs" and one: "utf8_char_count ?xs = 1" .
    have len: "length ?xs = ?n" using fit by simp
    have ih: "utf8_char_count ?ys = length (spec_chars ?ys) \<and>
              (q < utf8_char_count ?ys \<longrightarrow> decoded_at ?ys q = spec_chars ?ys ! q)" for q
      using "1.IH" [OF False wf, of q] vr sn by simp
    have cnt: "utf8_char_count bs = Suc (utf8_char_count ?ys)"
      using utf8_char_count_append [OF al, of ?ys] one by simp
    have c2b: "utf8_char_to_byte bs (Suc q) = ?n + utf8_char_to_byte ?ys q" for q
      using utf8_char_to_byte_append [OF al, of ?ys "Suc q"] one len by simp
    have nth: "decoded_at bs p = spec_chars bs ! p" if "p < utf8_char_count bs"
    proof (cases p)
      case 0
      then show ?thesis using spec_chars_step [OF wf] by (simp add: decoded_at_def)
    next
      case (Suc q)
      then have "q < utf8_char_count ?ys" using that cnt by simp
      then have "decoded_at ?ys q = spec_chars ?ys ! q" using ih by simp
      moreover have "decoded_at bs p = decoded_at ?ys q"
        using Suc c2b [of q] by (simp add: decoded_at_def add.commute)
      ultimately show ?thesis using Suc spec_chars_step [OF wf] by simp
    qed
    show ?thesis using cnt ih [of 0] spec_chars_step [OF wf] nth by simp
  qed
qed


subsection \<open>Example ropes\<close>

text \<open>The rope that \<open>n\<close> calls of \<^verbatim>\<open>rope_concat\<close> build from \<open>n + 1\<close> ropes \<^verbatim>\<open>"ab"\<close>,
  the result so far being the left argument of each call.\<close>

definition left_chain :: "nat \<Rightarrow> rope option" where
  "left_chain n =
     fold (\<lambda>i acc. rope_concat acc (Some (rope_new_from_str [0x61, 0x62]))) [0..<n]
       (Some (rope_new_from_str [0x61, 0x62]))"

text \<open>The rope \<^verbatim>\<open>"hello"\<close>.\<close>

definition hello_rope :: "rope" where
  "hello_rope = rope_new_from_str [0x68, 0x65, 0x6C, 0x6C, 0x6F]"


text \<open>An example rope of two leaves, \<^verbatim>\<open>"h\xC3\xA9"\<close> and \<^verbatim>\<open>"l\n"\<close>.\<close>

definition two_leaf_rope :: "rope" where
  "two_leaf_rope =
     the (rope_concat (Some (rope_new_from_str [0x68, 0xC3, 0xA9]))
                      (Some (rope_new_from_str [0x6C, 0x0A])))"

section \<open>The claims\<close>

subsection \<open>C1: split, then concatenate\<close>

text \<open>
  C1. The claim is that \<^verbatim>\<open>rope_to_string\<close> yields the content of \<open>r\<close> for the
  concatenation of the two ropes of \<^verbatim>\<open>rope_split_bytes(r, p)\<close>, for every rope \<open>r\<close> and
  valid \<open>p\<close>. Take for \<open>r\<close> the rope that 64 calls of \<^verbatim>\<open>rope_concat\<close> build from 65 ropes
  \<^verbatim>\<open>"ab"\<close>, each call with the result so far as its left argument. \<^verbatim>\<open>rope_to_string\<close>
  flattens \<open>r\<close> with its stack of 64 entries full. Splitting \<open>r\<close> at byte 129, inside the
  last leaf, and concatenating the two ropes puts one more branch above the left spine,
  and \<^verbatim>\<open>rope_to_string\<close> stores a 65th entry in \<^verbatim>\<open>stack[64]\<close>, which the model reports
  as \<open>Stack_Overflow\<close>. The two trees hold the same bytes (\<open>split_concat_node_bytes\<close>),
  and within 64 entries \<^verbatim>\<open>rope_to_string\<close> returns them (\<open>split_concat_to_string\<close>).
\<close>

theorem split_concat_overflows_stack:
  "rope_to_string (left_chain 64) = Inr (concat (replicate 65 [0x61, 0x62])) \<and>
   rope_to_string
     (rope_concat (fst (rope_split_bytes (left_chain 64) 129 True))
                  (snd (rope_split_bytes (left_chain 64) 129 True)))
     = Inl Stack_Overflow"
  by code_simp

subsection \<open>C2: the cached character count after an insertion inside a character\<close>

text \<open>
  C2. The claim is that the rope's cached \<^verbatim>\<open>char_len\<close> equals the sum of the character
  counts recomputed from the leaves, also after \<^verbatim>\<open>rope_insert_bytes\<close> at any byte
  position. Inserting \<^verbatim>\<open>"x"\<close> at byte 1 of the rope \<^verbatim>\<open>0xC3 0xA9\<close> (one character) splits
  the leaf inside the character: the three leaves count one character each, and the
  cached \<^verbatim>\<open>char_len\<close> is 2.
\<close>

theorem insert_inside_char_breaks_char_len:
  "(case rope_insert_bytes (Some (rope_new_from_str [0xC3, 0xA9])) 1 [0x78] of
      Some r \<Rightarrow> (char_len r, recomputed_char_count (root r), node_char_len (root r)))
   = (2, 3, 3)"
  by code_simp

subsection \<open>C3: the colouring after an insertion\<close>

text \<open>
  C3. The claim is that no red node has a red child after any sequence of public
  operations. Concatenating the ropes \<^verbatim>\<open>"a"\<close> and \<^verbatim>\<open>"b"\<close> and inserting \<^verbatim>\<open>"x"\<close> at
  byte 1 gives a black root whose left child is a red branch with a red right leaf:
  \<^verbatim>\<open>balance\<close> does not rotate when the red right child is a leaf.
\<close>

theorem insert_leaves_red_red:
  "rope_insert_bytes
     (rope_concat (Some (rope_new_from_str [0x61])) (Some (rope_new_from_str [0x62])))
     1 [0x78]
   = Some \<lparr>root =
         Branch RB_BLACK 2 2 0
           (Branch RB_RED 1 1 0 (Leaf RB_BLACK 1 1 0 [0x61] 1 0) (Leaf RB_RED 1 1 0 [0x78] 1 0))
           (Leaf RB_BLACK 1 1 0 [0x62] 1 0),
       byte_len = 3, char_len = 3, newlines = 0\<rparr>
   \<and> \<not> red_red_free
         (Branch RB_BLACK 2 2 0
           (Branch RB_RED 1 1 0 (Leaf RB_BLACK 1 1 0 [0x61] 1 0) (Leaf RB_RED 1 1 0 [0x78] 1 0))
           (Leaf RB_BLACK 1 1 0 [0x62] 1 0))"
  by code_simp

subsection \<open>C4: character to byte and back\<close>

text \<open>
  C4. The claim is that \<^verbatim>\<open>rope_byte_to_char(r, rope_char_to_byte(r, k)) = k\<close> for every
  \<^verbatim>\<open>k\<close> up to \<^verbatim>\<open>char_len(r)\<close>. Inserting \<^verbatim>\<open>"x"\<close> at byte 1 of the rope
  \<^verbatim>\<open>0xC3 0xF0 0x41 0x42 0x43\<close> (four characters) leaves a rope whose cached \<^verbatim>\<open>char_len\<close>
  is 5 while its leaves hold 3 characters; there character 3 maps to byte 6, the end,
  and byte 6 maps back to character 5.
\<close>

theorem char_byte_roundtrip_fails_after_insert:
  "(let r = rope_insert_bytes (Some (rope_new_from_str [0xC3, 0xF0, 0x41, 0x42, 0x43])) 1 [0x78]
    in (rope_char_length r, rope_char_to_byte r 3,
        rope_byte_to_char r (rope_char_to_byte r 3)))
   = (5, 6, 5)"
  by code_simp

subsection \<open>C5: what the decoder returns on invalid input\<close>

text \<open>
  C5. The claim is that \<^verbatim>\<open>utf8_decode\<close> returns U+FFFD and consumes one byte on every
  invalid sequence. On the lone continuation byte \<^verbatim>\<open>0x80\<close>, an invalid lead byte, the
  decoder returns the byte itself, \<^verbatim>\<open>0x80\<close>, and consumes one byte; on \<^verbatim>\<open>0xC3 0x41\<close>,
  a two-byte lead followed by a byte that is no continuation byte, it returns
  \<^verbatim>\<open>0xC1\<close> and consumes two bytes.
\<close>

theorem utf8_decode_invalid_not_replaced:
  "utf8_decode [0x80] = (0x80, 1) \<and> utf8_decode [0xC3, 0x41] = (0xC1, 2)"
  by (simp add: utf8_decode_def utf8_char_len_def)

subsection \<open>C6: the character at a position\<close>

text \<open>
  C6 (as amended). For every rope \<open>r\<close> that satisfies the invariant, whose cached
  \<^verbatim>\<open>char_len\<close> is the total of its tree, whose leaves all end on a character boundary
  and whose content is well-formed UTF-8, \<^verbatim>\<open>rope_char_at(r, p)\<close> returns the Unicode
  scalar value of the \<open>p\<close>-th character of the content of \<open>r\<close> when \<open>p < char_len(r)\<close>, the
  content having \<^verbatim>\<open>char_len(r)\<close> characters, and returns 0 when \<open>p \<ge> char_len(r)\<close>. On the
  8-byte input \<^verbatim>\<open>"AB\xE6\x97\xA5\xE6\x9C\xAC"\<close> it returns \<^verbatim>\<open>0x65E5\<close> at position 2 and
  \<^verbatim>\<open>0x672C\<close> at position 3.
\<close>

theorem char_at_spec:
  assumes "rope_ok r" and "char_len r = node_char_len (root r)" and "leaves_aligned (root r)"
    and "valid_utf8 (node_bytes (root r))"
  shows "char_len r = length (spec_chars (node_bytes (root r))) \<and>
         rope_char_at (Some r) p =
           (if p < char_len r then spec_chars (node_bytes (root r)) ! p else 0) \<and>
         rope_char_at (Some (rope_new_from_str [0x41, 0x42, 0xE6, 0x97, 0xA5, 0xE6, 0x9C, 0xAC])) 2
           = 0x65E5 \<and>
         rope_char_at (Some (rope_new_from_str [0x41, 0x42, 0xE6, 0x97, 0xA5, 0xE6, 0x9C, 0xAC])) 3
           = 0x672C"
proof -
  have cnt: "char_len r = utf8_char_count (node_bytes (root r))"
  proof (cases "root r = Null")
    case True
    then show ?thesis using assms(2) by simp
  next
    case False
    then have "tree_ok (root r)" using assms(1) by (simp add: rope_ok_def)
    then show ?thesis using assms(2,3) tree_ok_char_len by simp
  qed
  have len: "char_len r = length (spec_chars (node_bytes (root r)))"
    using valid_utf8_chars [OF assms(4), of 0] cnt by simp
  have gen: "rope_char_at (Some r) p =
           (if p < char_len r then spec_chars (node_bytes (root r)) ! p else 0)"
  proof (cases "p < char_len r")
    case False
    then show ?thesis by (simp add: rope_char_at_def)
  next
    case True
    then have "root r \<noteq> Null" using assms(2) by auto
    then have ok: "tree_ok (root r)" using assms(1) by (simp add: rope_ok_def)
    have "rope_char_at (Some r) p = decoded_at (node_bytes (root r)) p"
      using char_walks [OF ok assms(3), of p 0] True assms(2)
      by (simp add: rope_char_at_def rope_char_to_byte_def)
    then show ?thesis using valid_utf8_chars [OF assms(4), of p] True cnt by simp
  qed
  have ex: "rope_char_at (Some (rope_new_from_str [0x41, 0x42, 0xE6, 0x97, 0xA5, 0xE6, 0x9C, 0xAC])) 2
           = 0x65E5 \<and>
         rope_char_at (Some (rope_new_from_str [0x41, 0x42, 0xE6, 0x97, 0xA5, 0xE6, 0x9C, 0xAC])) 3
           = 0x672C"
    by code_simp
  show ?thesis using len gen ex by simp
qed

text \<open>The witness: the rope of the leaves \<^verbatim>\<open>"h\xC3\xA9"\<close> and \<^verbatim>\<open>"l\n"\<close>, whose character 1
  is U+00E9.\<close>

theorem char_at_spec_witness:
  "rope_ok two_leaf_rope \<and> char_len two_leaf_rope = node_char_len (root two_leaf_rope) \<and>
   leaves_aligned (root two_leaf_rope) \<and> valid_utf8 (node_bytes (root two_leaf_rope)) \<and>
   char_len two_leaf_rope = length (spec_chars (node_bytes (root two_leaf_rope))) \<and>
   rope_char_at (Some two_leaf_rope) 1 =
     (if 1 < char_len two_leaf_rope then spec_chars (node_bytes (root two_leaf_rope)) ! 1 else 0) \<and>
   rope_char_at (Some two_leaf_rope) 1 = 0xE9"
proof -
  have h1: "rope_ok two_leaf_rope" by code_simp
  have h2: "char_len two_leaf_rope = node_char_len (root two_leaf_rope)" by code_simp
  have h3: "leaves_aligned (root two_leaf_rope)" by code_simp
  have h4: "valid_utf8 (node_bytes (root two_leaf_rope))" by code_simp
  have v: "rope_char_at (Some two_leaf_rope) 1 = 0xE9" by code_simp
  from char_at_spec [OF h1 h2 h3 h4, of 1] h1 h2 h3 h4 v show ?thesis by blast
qed

text \<open>
  The claim as stated, for every rope, fails on the rope that \<^verbatim>\<open>rope_split_bytes\<close> at
  byte 1 and \<^verbatim>\<open>rope_concat\<close> make of \<^verbatim>\<open>0xC3 0xA9\<close>: its content is the one character
  U+00E9, its \<^verbatim>\<open>char_len\<close> is 2, and \<^verbatim>\<open>rope_char_at\<close> decodes position 0 inside the leaf
  \<^verbatim>\<open>0xC3\<close>, a truncated sequence, as U+FFFD.
\<close>

theorem char_at_split_character:
  "rope_to_string
     (rope_concat (fst (rope_split_bytes (Some (rope_new_from_str [0xC3, 0xA9])) 1 True))
                  (snd (rope_split_bytes (Some (rope_new_from_str [0xC3, 0xA9])) 1 True)))
     = Inr [0xC3, 0xA9] \<and>
   0 < rope_char_length
     (rope_concat (fst (rope_split_bytes (Some (rope_new_from_str [0xC3, 0xA9])) 1 True))
                  (snd (rope_split_bytes (Some (rope_new_from_str [0xC3, 0xA9])) 1 True))) \<and>
   rope_char_at
     (rope_concat (fst (rope_split_bytes (Some (rope_new_from_str [0xC3, 0xA9])) 1 True))
                  (snd (rope_split_bytes (Some (rope_new_from_str [0xC3, 0xA9])) 1 True))) 0
     = 0xFFFD \<and>
   spec_chars [0xC3, 0xA9] = [0xE9]"
  by code_simp

subsection \<open>C7: positions and lengths are clamped\<close>

text \<open>
  C7. Insert and delete never reject a position: on a rope that satisfies the invariant,
  both return a rope that satisfies it. A position past the end is clamped to the end:
  the result of the insertion holds the bytes of the rope up to the clamped position,
  the inserted bytes, and the rest. A length that reaches past the end is truncated to
  what is left: the result of the deletion holds the bytes of the rope without those
  from the clamped start over the truncated length. Each call returns what the call
  with the clamped arguments returns, and with length zero both return the rope they
  were given.
\<close>

theorem positions_are_clamped:
  assumes "rope_ok r"
  shows "(\<exists>r'. rope_insert_bytes (Some r) byte_pos str = Some r' \<and> rope_ok r' \<and>
            node_bytes (root r')
              = take (min byte_pos (byte_len r)) (node_bytes (root r)) @ str @
                drop (min byte_pos (byte_len r)) (node_bytes (root r))) \<and>
         (\<exists>r'. rope_delete_bytes (Some r) byte_start len = Some r' \<and> rope_ok r' \<and>
            node_bytes (root r')
              = take (min byte_start (byte_len r)) (node_bytes (root r)) @
                drop (min byte_start (byte_len r)
                      + min len (byte_len r - min byte_start (byte_len r)))
                  (node_bytes (root r))) \<and>
         rope_insert_bytes (Some r) byte_pos str
           = rope_insert_bytes (Some r) (min byte_pos (byte_len r)) str \<and>
         rope_delete_bytes (Some r) byte_start len
           = rope_delete_bytes (Some r) (min byte_start (byte_len r))
               (min len (byte_len r - min byte_start (byte_len r))) \<and>
         rope_insert_bytes (Some r) byte_pos [] = Some r \<and>
         rope_delete_bytes (Some r) byte_start 0 = Some r"
proof -
  have bl: "byte_len r = length (node_bytes (root r))" using rope_ok_byte_len [OF assms] .
  have ins: "\<exists>r'. rope_insert_bytes (Some r) byte_pos str = Some r' \<and> rope_ok r' \<and>
            node_bytes (root r')
              = take (min byte_pos (byte_len r)) (node_bytes (root r)) @ str @
                drop (min byte_pos (byte_len r)) (node_bytes (root r))"
    using rope_insert_bytes_ok [OF assms, of byte_pos str] bl by (auto simp: min_def)
  have del: "\<exists>r'. rope_delete_bytes (Some r) byte_start len = Some r' \<and> rope_ok r' \<and>
            node_bytes (root r')
              = take (min byte_start (byte_len r)) (node_bytes (root r)) @
                drop (min byte_start (byte_len r)
                      + min len (byte_len r - min byte_start (byte_len r)))
                  (node_bytes (root r))"
    using rope_delete_bytes_ok [OF assms, of byte_start len] bl by (auto simp: min_def)
  have ins_min: "rope_insert_bytes (Some r) byte_pos str
           = rope_insert_bytes (Some r) (min byte_pos (byte_len r)) str"
    by (simp add: rope_insert_bytes_def Let_def min_def)
  have ins0: "rope_insert_bytes (Some r) byte_pos [] = Some r"
    by (simp add: rope_insert_bytes_def)
  have del0: "rope_delete_bytes (Some r) byte_start 0 = Some r"
    by (simp add: rope_delete_bytes_alt Let_def)
  have del_min: "rope_delete_bytes (Some r) byte_start len
           = rope_delete_bytes (Some r) (min byte_start (byte_len r))
               (min len (byte_len r - min byte_start (byte_len r)))"
  proof (cases "byte_start \<ge> byte_len r")
    case True
    then show ?thesis by (simp add: rope_delete_bytes_alt min_def)
  next
    case inside: False
    show ?thesis
    proof (cases "len \<le> byte_len r - byte_start")
      case True
      then show ?thesis using inside by (simp add: min_def)
    next
      case False
      have rhs: "rope_delete_bytes (Some r) byte_start (byte_len r - byte_start)
                 = delete_tail r byte_start (byte_len r - byte_start)"
        using inside by (simp add: rope_delete_bytes_alt Let_def)
      have tail: "delete_tail r byte_start len = delete_tail r byte_start (byte_len r - byte_start)"
        using delete_tail_past_end [OF assms(1), of len byte_start]
              delete_tail_past_end [OF assms(1), of "byte_len r - byte_start" byte_start]
              False inside by simp
      have lhs: "rope_delete_bytes (Some r) byte_start len
                 = delete_tail r byte_start (byte_len r - byte_start)"
        using inside False tail by (simp add: rope_delete_bytes_alt Let_def)
      show ?thesis using lhs rhs inside False by (simp add: min_def)
    qed
  qed
  show ?thesis using ins del ins_min del_min ins0 del0 by blast
qed

text \<open>The witness: the rope \<^verbatim>\<open>"hello"\<close>, an insertion of \<^verbatim>\<open>"!"\<close> at byte 9, which gives
  \<^verbatim>\<open>"hello!"\<close>, and a deletion from byte 2 of \<open>2 ^ 64 - 1\<close> bytes, where
  \<^verbatim>\<open>byte_start + byte_len\<close> wraps around to 1, which gives \<^verbatim>\<open>"he"\<close>.\<close>

theorem positions_are_clamped_witness:
  "rope_ok hello_rope \<and>
   (\<exists>r'. rope_insert_bytes (Some hello_rope) 9 [0x21] = Some r' \<and> rope_ok r' \<and>
      node_bytes (root r') = [0x68, 0x65, 0x6C, 0x6C, 0x6F, 0x21]) \<and>
   (\<exists>r'. rope_delete_bytes (Some hello_rope) 2 (2 ^ 64 - 1) = Some r' \<and> rope_ok r' \<and>
      node_bytes (root r') = [0x68, 0x65]) \<and>
   rope_insert_bytes (Some hello_rope) 9 [0x21]
     = rope_insert_bytes (Some hello_rope) (min 9 (byte_len hello_rope)) [0x21] \<and>
   rope_delete_bytes (Some hello_rope) 2 (2 ^ 64 - 1)
     = rope_delete_bytes (Some hello_rope) (min 2 (byte_len hello_rope))
         (min (2 ^ 64 - 1) (byte_len hello_rope - min 2 (byte_len hello_rope)))"
proof -
  have h: "rope_ok hello_rope" by code_simp
  have b: "byte_len hello_rope = 5" by code_simp
  have n: "node_bytes (root hello_rope) = [0x68, 0x65, 0x6C, 0x6C, 0x6F]" by code_simp
  note t = positions_are_clamped [OF h, where byte_pos = 9 and str = "[0x21]"
      and byte_start = 2 and len = "2 ^ 64 - 1"]
  have i: "\<exists>r'. rope_insert_bytes (Some hello_rope) 9 [0x21] = Some r' \<and> rope_ok r' \<and>
      node_bytes (root r') = [0x68, 0x65, 0x6C, 0x6C, 0x6F, 0x21]"
    using t [THEN conjunct1] by (simp add: b n)
  have d: "\<exists>r'. rope_delete_bytes (Some hello_rope) 2 (2 ^ 64 - 1) = Some r' \<and> rope_ok r' \<and>
      node_bytes (root r') = [0x68, 0x65]"
    using t [THEN conjunct2, THEN conjunct1] by (simp add: b n)
  have e1: "rope_insert_bytes (Some hello_rope) 9 [0x21]
     = rope_insert_bytes (Some hello_rope) (min 9 (byte_len hello_rope)) [0x21]"
    using t [THEN conjunct2, THEN conjunct2, THEN conjunct1] .
  have e2: "rope_delete_bytes (Some hello_rope) 2 (2 ^ 64 - 1)
     = rope_delete_bytes (Some hello_rope) (min 2 (byte_len hello_rope))
         (min (2 ^ 64 - 1) (byte_len hello_rope - min 2 (byte_len hello_rope)))"
    using t [THEN conjunct2, THEN conjunct2, THEN conjunct2, THEN conjunct1] .
  show ?thesis using h i d e1 e2 by blast
qed

subsection \<open>C8: the start of a line\<close>




subsection \<open>C9: flattening and building again\<close>

text \<open>
  C9 (as amended). For every rope \<open>r\<close> that satisfies the invariant and whose traversal
  stays within the 64 stack entries, \<^verbatim>\<open>rope_to_string(r)\<close> is a buffer of
  \<^verbatim>\<open>byte_len(r)\<close> bytes, and \<^verbatim>\<open>rope_new_from_str\<close> of that buffer has the bytes and
  the newlines of \<open>r\<close> in its stats; it has all three stats of \<open>r\<close> when the cached
  \<^verbatim>\<open>char_len\<close> of \<open>r\<close> is the total of its tree and every leaf of \<open>r\<close> ends on a
  character boundary.
\<close>

theorem to_string_reingest:
  assumes "rope_ok r" and "rope_fits (Some r)"
  shows "rope_to_string (Some r) = Inr (node_bytes (root r)) \<and>
         length (node_bytes (root r)) = byte_len r \<and>
         bytes (rope_stats (Some (rope_new_from_str (node_bytes (root r)))))
           = bytes (rope_stats (Some r)) \<and>
         stat_newlines (rope_stats (Some (rope_new_from_str (node_bytes (root r)))))
           = stat_newlines (rope_stats (Some r)) \<and>
         (char_len r = node_char_len (root r) \<and> leaves_aligned (root r) \<longrightarrow>
          rope_stats (Some (rope_new_from_str (node_bytes (root r)))) = rope_stats (Some r))"
proof -
  have len: "length (node_bytes (root r)) = byte_len r"
    using rope_ok_byte_len [OF assms(1)] by simp
  have nl: "count_newlines (node_bytes (root r)) = newlines r"
    using rope_ok_newlines [OF assms(1)] by simp
  have ch: "utf8_char_count (node_bytes (root r)) = char_len r"
    if "char_len r = node_char_len (root r)" "leaves_aligned (root r)"
  proof (cases "root r = Null")
    case True
    then show ?thesis using that by simp
  next
    case False
    then have "tree_ok (root r)" using assms(1) by (simp add: rope_ok_def)
    then show ?thesis using that tree_ok_char_len by simp
  qed
  show ?thesis
    using rope_to_string_fits [OF assms] len nl ch
    by (simp add: rope_stats_new_from_str) (simp add: rope_stats_def)
qed

theorem to_string_reingest_witness:
  "rope_ok two_leaf_rope \<and> rope_fits (Some two_leaf_rope) \<and>
   char_len two_leaf_rope = node_char_len (root two_leaf_rope) \<and>
   leaves_aligned (root two_leaf_rope) \<and>
   rope_to_string (Some two_leaf_rope) = Inr (node_bytes (root two_leaf_rope)) \<and>
   length (node_bytes (root two_leaf_rope)) = byte_len two_leaf_rope \<and>
   rope_stats (Some (rope_new_from_str (node_bytes (root two_leaf_rope))))
     = rope_stats (Some two_leaf_rope)"
proof -
  have h1: "rope_ok two_leaf_rope" by code_simp
  have h2: "rope_fits (Some two_leaf_rope)" by code_simp
  have h3: "char_len two_leaf_rope = node_char_len (root two_leaf_rope)" by code_simp
  have h4: "leaves_aligned (root two_leaf_rope)" by code_simp
  from to_string_reingest [OF h1 h2] h1 h2 h3 h4 show ?thesis by blast
qed

text \<open>
  The claim as stated fails on the rope that \<^verbatim>\<open>rope_split_bytes\<close> at byte 1 and
  \<^verbatim>\<open>rope_concat\<close> make of \<^verbatim>\<open>0xC3 0xA9\<close>: its leaves \<^verbatim>\<open>0xC3\<close> and \<^verbatim>\<open>0xA9\<close> count one
  character each, so its stats say 2 characters, and the rope built from its flattened
  bytes has 1.
\<close>

theorem reingest_changes_char_count:
  "rope_to_string
     (rope_concat (fst (rope_split_bytes (Some (rope_new_from_str [0xC3, 0xA9])) 1 True))
                  (snd (rope_split_bytes (Some (rope_new_from_str [0xC3, 0xA9])) 1 True)))
     = Inr [0xC3, 0xA9] \<and>
   chars (rope_stats
     (rope_concat (fst (rope_split_bytes (Some (rope_new_from_str [0xC3, 0xA9])) 1 True))
                  (snd (rope_split_bytes (Some (rope_new_from_str [0xC3, 0xA9])) 1 True)))) = 2 \<and>
   chars (rope_stats (Some (rope_new_from_str [0xC3, 0xA9]))) = 1"
  by code_simp

subsection \<open>C10: queries on a NULL handle\<close>

text \<open>
  C10. Every read-only query applied to a \<^verbatim>\<open>NULL\<close> rope handle returns the answer of
  the empty document: \<^verbatim>\<open>rope_byte_length\<close> and \<^verbatim>\<open>rope_char_length\<close> return 0,
  \<^verbatim>\<open>rope_char_at\<close> returns 0 at every position, \<^verbatim>\<open>rope_stats\<close> returns three
  zeros and \<^verbatim>\<open>rope_line_count\<close> returns 1.
\<close>

theorem null_rope_queries:
  "rope_byte_length None = 0 \<and> rope_char_length None = 0 \<and> rope_char_at None p = 0 \<and>
   rope_stats None = \<lparr>bytes = 0, chars = 0, stat_newlines = 0\<rparr> \<and>
   rope_line_count None = 1"
  by (simp add: rope_byte_length_def rope_char_length_def rope_char_at_def rope_stats_def
      rope_line_count_def)

end
